theory Spec2Isabelle
  imports Main
begin

section \<open>The supervisor and its workers (parent.c, child.c, common.c)\<close>

text \<open>
  The program is a parent process that reads a list of timestamped commands, forks child
  processes on \<^verbatim>\<open>S\<close> commands, ends them on \<^verbatim>\<open>T\<close> commands, and on every tick hands
  one line of a text file to one live child through a shared-memory segment. A child is
  woken through the semaphore of its slot and answers through one shared semaphore.

  The embedding follows the C text function by function. C \<^verbatim>\<open>int\<close>s are modelled as
  \<^typ>\<open>int\<close>; the only place where the machine range matters for the properties below is the
  tick counter, whose increment past \<^verbatim>\<open>INT_MAX\<close> is kept as an explicit outcome at which
  the model stops.
  What the environment decides is a parameter: \<^verbatim>\<open>frk\<close> gives the value the k-th call of
  \<^verbatim>\<open>fork\<close> returns in the parent, \<^verbatim>\<open>rnd\<close> the value of the k-th call of
  \<^verbatim>\<open>rand\<close>, and the text file is the list of strings that successive calls of
  \<^verbatim>\<open>fgets\<close> return.
\<close>

subsection \<open>Data\<close>

type_synonym pid_t = int

record ConfigEntry =
  timestamp :: int
  processLabel :: string
  command :: char

record SharedMemory =
  activeChildIndx :: int
  endsInTimestamp :: int
  sharedSpace :: string

text \<open>The lines a child writes to its own log file, in the order of the
  \<^verbatim>\<open>fprintf\<close> calls of child.c.\<close>

datatype log_line =
    ReceivedTerminate int pid_t
  | ReceivedMessage int pid_t string
  | Summary pid_t int int int int

text \<open>The local variables of one run of \<^verbatim>\<open>child\<close>.\<close>

record child_proc =
  child_pid :: pid_t
  M_requests :: nat
  activation_time :: int
  lineCntr :: int
  child_endsInTimestamp :: int
  writefile :: "log_line list"

text \<open>What the parent does that another process or the console can see, in program
  order: the stores into the shared segment, the semaphore calls and the lines it prints.
  \<^verbatim>\<open>Tick\<close> marks the entry into the body of the tick loop and corresponds to no
  statement of its own.\<close>

datatype event =
    Tick int
  | Spawned int string pid_t
  | Store_endsInTimestamp int
  | Store_sharedSpace string
  | Store_activeChildIndx nat
  | SentTerminate int nat
  | HasTerminated int nat
  | Warning int string
  | SentMessage int nat string
  | SemPost nat
  | SemWaitParent

text \<open>The local variables of \<^verbatim>\<open>parentProcess\<close>, the two kinds of semaphore, the
  child processes (alive, by the slot whose semaphore they wait on, and exited), and the
  counters of the calls of \<^verbatim>\<open>fork\<close> and \<^verbatim>\<open>rand\<close>.\<close>

record state =
  children :: "pid_t list"
  childLabels :: "string list"
  childSemArr :: "int list"
  activationTime :: "int list"
  terminationTime :: "int list"
  sharedMem :: SharedMemory
  semaphores :: "nat list"
  parentNotificationSemaphore :: nat
  activeChildren :: int
  alive :: "child_proc option list"
  exited :: "child_proc list"
  fork_calls :: nat
  rand_calls :: nat
  trace :: "event list"

datatype fault = DivisionByZero | SignedOverflow | UninitialisedBuffer

text \<open>How a piece of the parent ends: it went through (\<^verbatim>\<open>Done\<close>), it sits in a
  \<^verbatim>\<open>sem_wait\<close> that no process will ever post (\<^verbatim>\<open>Blocked\<close>), it ran into
  behaviour C leaves undefined (\<^verbatim>\<open>Undefined\<close>), or it called
  \<^verbatim>\<open>exit(EXIT_FAILURE)\<close> after printing a diagnostic (\<^verbatim>\<open>Exit_Failure\<close>).\<close>

datatype result =
    Done state
  | Blocked state
  | Undefined fault state
  | Exit_Failure string

definition INT_MAX :: int where
  "INT_MAX = 2147483647"

subsection \<open>common.c\<close>

definition freeSlotFinder :: "pid_t list \<Rightarrow> nat \<Rightarrow> nat option" where
  "freeSlotFinder chn M = find (\<lambda>i. chn ! i = 0) [0..<M]"

definition childLabelFinder :: "string list \<Rightarrow> string \<Rightarrow> nat \<Rightarrow> nat option" where
  "childLabelFinder lbls label M = find (\<lambda>i. lbls ! i = label) [0..<M]"

definition lineCount :: "string list \<Rightarrow> nat" where
  "lineCount fp = length fp"

text \<open>\<^verbatim>\<open>r\<close> is the value \<^verbatim>\<open>rand\<close> returns if it is called, which is when some
  entry of the array is positive.\<close>

definition randomActiveChildrenSelection :: "pid_t list \<Rightarrow> nat \<Rightarrow> nat \<Rightarrow> nat option" where
  "randomActiveChildrenSelection chn M r =
     (let activeIndexes = filter (\<lambda>i. chn ! i > 0) [0..<M];
          countOfActive = length activeIndexes
      in if countOfActive = 0 then None
         else Some (activeIndexes ! (r mod countOfActive)))"

text \<open>\<^verbatim>\<open>n\<close> calls of \<^verbatim>\<open>fgets\<close> on the rewound file: a call at the end of the file
  returns \<^verbatim>\<open>NULL\<close> and leaves the buffer as it is. The buffer is \<^verbatim>\<open>None\<close> while
  nothing has been stored in it.\<close>

fun fgets_loop :: "nat \<Rightarrow> string list \<Rightarrow> string option \<Rightarrow> string option" where
  "fgets_loop 0 fp buffer = buffer"
| "fgets_loop (Suc n) [] buffer = fgets_loop n [] buffer"
| "fgets_loop (Suc n) (l # fp) buffer = fgets_loop n fp (Some l)"

definition randomLineSelection ::
  "string list \<Rightarrow> string option \<Rightarrow> nat \<Rightarrow> nat \<Rightarrow> fault + string option" where
  "randomLineSelection fp buffer totalLines r =
     (if totalLines = 0 then Inl DivisionByZero
      else (let randLine = r mod totalLines in Inr (fgets_loop (Suc randLine) fp buffer)))"

definition sharedMemSetup :: SharedMemory where
  "sharedMemSetup = \<lparr>activeChildIndx = - 1, endsInTimestamp = - 1, sharedSpace = []\<rparr>"

subsection \<open>child.c\<close>

text \<open>One turn of the loop of \<^verbatim>\<open>child\<close> after its \<^verbatim>\<open>sem_wait\<close> has returned; the
  flag says whether the loop was left.\<close>

definition child_iteration :: "SharedMemory \<Rightarrow> child_proc \<Rightarrow> child_proc \<times> bool" where
  "child_iteration shm c =
     (if sharedSpace shm = ''TERMINATE''
      then (c\<lparr>writefile := writefile c @ [ReceivedTerminate (endsInTimestamp shm) (child_pid c)],
               child_endsInTimestamp := endsInTimestamp shm\<rparr>, True)
      else (c\<lparr>writefile := writefile c @
                 [ReceivedMessage (endsInTimestamp shm) (child_pid c) (sharedSpace shm)],
               lineCntr := lineCntr c + 1\<rparr>, False))"

text \<open>The statements of \<^verbatim>\<open>child\<close> after the loop.\<close>

definition child_finish :: "child_proc \<Rightarrow> child_proc" where
  "child_finish c =
     (if child_endsInTimestamp c \<ge> 0
      then (let timeActive = child_endsInTimestamp c - activation_time c
            in c\<lparr>writefile := writefile c @
                    [Summary (child_pid c) (lineCntr c) (child_endsInTimestamp c)
                       (activation_time c) timeActive]\<rparr>)
      else c)"

definition child_start :: "pid_t \<Rightarrow> nat \<Rightarrow> int \<Rightarrow> child_proc" where
  "child_start p slot activation =
     \<lparr>child_pid = p, M_requests = slot, activation_time = activation, lineCntr = 0,
      child_endsInTimestamp = - 1, writefile = []\<rparr>"

subsection \<open>The handshake\<close>

text \<open>Every send of parent.c is the pair
  \<^verbatim>\<open>sem_post(semaphores[i]); sem_wait(parentNotificationSemaphore);\<close>.
  Between the two calls the only process that can run is the child waiting on semaphore
  \<^verbatim>\<open>i\<close>: it takes the semaphore, does one turn of its loop and posts the parent's
  semaphore. With no child alive on that semaphore nothing happens.\<close>

definition child_turn :: "nat \<Rightarrow> state \<Rightarrow> state" where
  "child_turn i s =
     (case alive s ! i of
        None \<Rightarrow> s
      | Some c \<Rightarrow>
          if semaphores s ! i = 0 then s
          else (let (c', left) = child_iteration (sharedMem s) c;
                    s1 = s\<lparr>semaphores := (semaphores s)[i := semaphores s ! i - 1],
                           parentNotificationSemaphore := parentNotificationSemaphore s + 1\<rparr>
                in if left
                   then s1\<lparr>alive := (alive s)[i := None],
                           exited := exited s @ [child_finish c']\<rparr>
                   else s1\<lparr>alive := (alive s)[i := Some c']\<rparr>))"

definition sem_post_child :: "nat \<Rightarrow> state \<Rightarrow> state" where
  "sem_post_child i s =
     s\<lparr>semaphores := (semaphores s)[i := semaphores s ! i + 1],
       trace := trace s @ [SemPost i]\<rparr>"

definition sem_wait_parent :: "state \<Rightarrow> result" where
  "sem_wait_parent s =
     (if parentNotificationSemaphore s = 0
      then Blocked (s\<lparr>trace := trace s @ [SemWaitParent]\<rparr>)
      else Done (s\<lparr>parentNotificationSemaphore := parentNotificationSemaphore s - 1,
                   trace := trace s @ [SemWaitParent]\<rparr>))"

definition post_and_wait :: "nat \<Rightarrow> state \<Rightarrow> result" where
  "post_and_wait i s = sem_wait_parent (child_turn i (sem_post_child i s))"

subsection \<open>parent.c\<close>

text \<open>The search for the \<^verbatim>\<open>E\<close> command (lines 162 to 169): the loop leaves at the first
  one; \<^verbatim>\<open>q\<close> is the value the variable holds before the loop.\<close>

fun quitScan :: "ConfigEntry list \<Rightarrow> int \<Rightarrow> int" where
  "quitScan [] q = q"
| "quitScan (c # cs) q = (if command c = CHR ''E'' then timestamp c else quitScan cs q)"

text \<open>The arrays after the \<^verbatim>\<open>memset\<close> calls, the segment after \<^verbatim>\<open>sharedMemSetup\<close> and
  the semaphores after \<^verbatim>\<open>semInit\<close>.\<close>

definition initial :: "nat \<Rightarrow> state" where
  "initial M =
     \<lparr>children = replicate M 0,
      childLabels = replicate M [],
      childSemArr = replicate (M + 1) (- 1),
      activationTime = replicate M (- 1),
      terminationTime = replicate M (- 1),
      sharedMem = sharedMemSetup,
      semaphores = replicate M 0,
      parentNotificationSemaphore = 0,
      activeChildren = 0,
      alive = replicate M None,
      exited = [],
      fork_calls = 0,
      rand_calls = 0,
      trace = []\<rparr>"

text \<open>Lines 215 to 222, and again lines 251 to 258: the sentinel is stored, the child's
  semaphore posted, the answer awaited. \<^verbatim>\<open>waitpid\<close> returns once the child that
  answered has left its loop and exited.\<close>

definition terminate_child :: "int \<Rightarrow> nat \<Rightarrow> state \<Rightarrow> result" where
  "terminate_child t i s =
     (let s1 = s\<lparr>terminationTime := (terminationTime s)[i := t],
                 sharedMem := (sharedMem s)\<lparr>endsInTimestamp := t, sharedSpace := ''TERMINATE''\<rparr>,
                 trace := trace s @
                   [Store_endsInTimestamp t, Store_sharedSpace ''TERMINATE'', SentTerminate t i]\<rparr>
      in case post_and_wait i s1 of
           Done s2 \<Rightarrow> Done (s2\<lparr>trace := trace s2 @ [HasTerminated t i]\<rparr>)
         | r \<Rightarrow> r)"

text \<open>The body of the inner loop for a command whose timestamp is the current tick
  (lines 193 to 230). In the parent \<^verbatim>\<open>fork\<close> returns the child's positive process id, or
  \<^verbatim>\<open>-1\<close> when no process could be created. \<^verbatim>\<open>processLabel\<close> holds at most nine
  characters, so \<^verbatim>\<open>strncpy\<close> copies the whole label.\<close>

definition applyCommand :: "nat \<Rightarrow> (nat \<Rightarrow> pid_t) \<Rightarrow> int \<Rightarrow> ConfigEntry \<Rightarrow> state \<Rightarrow> result" where
  "applyCommand M frk currTime c s =
     (let label = processLabel c in
      if command c = CHR ''S'' \<and> activeChildren s < int M then
        (case freeSlotFinder (children s) M of
           None \<Rightarrow> Done s
         | Some freeSlot \<Rightarrow>
             (let child_pid = frk (fork_calls s);
                  s1 = s\<lparr>fork_calls := fork_calls s + 1\<rparr>
              in if child_pid > 0
                 then Done (s1\<lparr>children := (children s)[freeSlot := child_pid],
                               childLabels := (childLabels s)[freeSlot := label],
                               childSemArr := (childSemArr s)[freeSlot := int freeSlot],
                               activationTime := (activationTime s)[freeSlot := currTime],
                               activeChildren := activeChildren s + 1,
                               alive := (alive s)[freeSlot := Some (child_start child_pid freeSlot currTime)],
                               trace := trace s @ [Spawned currTime label child_pid]\<rparr>)
                 else Done s1))
      else if command c = CHR ''T'' then
        (case childLabelFinder (childLabels s) label M of
           Some childIndx \<Rightarrow>
             (case terminate_child currTime childIndx s of
                Done s2 \<Rightarrow> Done (s2\<lparr>children := (children s2)[childIndx := 0],
                                     activeChildren := activeChildren s2 - 1\<rparr>)
              | r \<Rightarrow> r)
         | None \<Rightarrow> Done (s\<lparr>trace := trace s @ [Warning currTime label]\<rparr>))
      else Done s)"

text \<open>The inner loop (lines 191 to 232) over the command array.\<close>

fun commandLoop ::
  "nat \<Rightarrow> (nat \<Rightarrow> pid_t) \<Rightarrow> int \<Rightarrow> ConfigEntry list \<Rightarrow> state \<Rightarrow> result" where
  "commandLoop M frk currTime [] s = Done s"
| "commandLoop M frk currTime (c # cs) s =
     (if timestamp c = currTime
      then (case applyCommand M frk currTime c s of
              Done s' \<Rightarrow> commandLoop M frk currTime cs s'
            | r \<Rightarrow> r)
      else commandLoop M frk currTime cs s)"

text \<open>Lines 234 to 246: one line of the text file for one child. The local buffer
  \<^verbatim>\<open>line\<close> holds nothing before \<^verbatim>\<open>randomLineSelection\<close> fills it.\<close>

definition deliver ::
  "nat \<Rightarrow> (nat \<Rightarrow> nat) \<Rightarrow> string list \<Rightarrow> nat \<Rightarrow> int \<Rightarrow> state \<Rightarrow> result" where
  "deliver M rnd fp numOfLinesInText currTime s =
     (if activeChildren s > 0 then
        (case randomActiveChildrenSelection (children s) M (rnd (rand_calls s)) of
           None \<Rightarrow> Done s
         | Some randChildIndx \<Rightarrow>
             (let s1 = s\<lparr>rand_calls := rand_calls s + 1\<rparr>
              in if numOfLinesInText > 0 then
                   (case randomLineSelection fp None numOfLinesInText (rnd (rand_calls s1)) of
                      Inl f \<Rightarrow> Undefined f s1
                    | Inr None \<Rightarrow> Undefined UninitialisedBuffer (s1\<lparr>rand_calls := rand_calls s1 + 1\<rparr>)
                    | Inr (Some line) \<Rightarrow>
                        post_and_wait randChildIndx
                          (s1\<lparr>rand_calls := rand_calls s1 + 1,
                              sharedMem := \<lparr>activeChildIndx = int randChildIndx,
                                            endsInTimestamp = currTime,
                                            sharedSpace = line\<rparr>,
                              trace := trace s1 @
                                [Store_sharedSpace line, Store_endsInTimestamp currTime,
                                 Store_activeChildIndx randChildIndx,
                                 SentMessage currTime randChildIndx line]\<rparr>))
                 else Done s1))
      else Done s)"

text \<open>The body of the tick loop (lines 191 to 246).\<close>

definition tick ::
  "nat \<Rightarrow> (nat \<Rightarrow> pid_t) \<Rightarrow> (nat \<Rightarrow> nat) \<Rightarrow> ConfigEntry list \<Rightarrow> string list \<Rightarrow> nat \<Rightarrow> int
     \<Rightarrow> state \<Rightarrow> result" where
  "tick M frk rnd commands fp numOfLinesInText currTime s =
     (case commandLoop M frk currTime commands (s\<lparr>trace := trace s @ [Tick currTime]\<rparr>) of
        Done s' \<Rightarrow> deliver M rnd fp numOfLinesInText currTime s'
      | r \<Rightarrow> r)"

text \<open>The tick loop (line 190). \<^verbatim>\<open>++currTime\<close> at \<^verbatim>\<open>INT_MAX\<close> is a signed overflow,
  which can only be reached with \<^verbatim>\<open>quitTimestamp = INT_MAX\<close>. The outcome
  \<^verbatim>\<open>Undefined SignedOverflow\<close> carries the state at the overflow; what the program does from
  there on (with a wrapping counter it goes on with the tick \<^verbatim>\<open>-2147483648\<close> and never leaves
  the loop) is not modelled, so its trace says nothing about later ticks.\<close>

function tickLoop ::
  "nat \<Rightarrow> (nat \<Rightarrow> pid_t) \<Rightarrow> (nat \<Rightarrow> nat) \<Rightarrow> ConfigEntry list \<Rightarrow> string list \<Rightarrow> nat \<Rightarrow> int
     \<Rightarrow> int \<Rightarrow> state \<Rightarrow> result" where
  "tickLoop M frk rnd commands fp numOfLinesInText quitTimestamp currTime s =
     (if currTime \<le> quitTimestamp
      then (case tick M frk rnd commands fp numOfLinesInText currTime s of
              Done s' \<Rightarrow>
                if currTime = INT_MAX then Undefined SignedOverflow s'
                else tickLoop M frk rnd commands fp numOfLinesInText quitTimestamp (currTime + 1) s'
            | r \<Rightarrow> r)
      else Done s)"
  by pat_completeness auto
termination
  by (relation "measure (\<lambda>(M, frk, rnd, commands, fp, n, quitTimestamp, currTime, s).
                   nat (quitTimestamp + 1 - currTime))") auto

declare tickLoop.simps [simp del]

text \<open>The loop after the tick loop (lines 249 to 260), over the slots in increasing order.\<close>

fun drainLoop :: "int \<Rightarrow> nat list \<Rightarrow> state \<Rightarrow> result" where
  "drainLoop quitTimestamp [] s = Done s"
| "drainLoop quitTimestamp (i # slots) s =
     (if children s ! i > 0
      then (case terminate_child quitTimestamp i s of
              Done s' \<Rightarrow> drainLoop quitTimestamp slots s'
            | r \<Rightarrow> r)
      else drainLoop quitTimestamp slots s)"

text \<open>\<^verbatim>\<open>parentProcess\<close> from line 160 on, given the parsed commands and the opened text
  file. The release of the segment and of the semaphores at the very end
  (\<^verbatim>\<open>rescourceCleanup\<close>) touches nothing the properties below speak of and is left out.\<close>

definition parentProcess ::
  "nat \<Rightarrow> (nat \<Rightarrow> pid_t) \<Rightarrow> (nat \<Rightarrow> nat) \<Rightarrow> ConfigEntry list \<Rightarrow> string list \<Rightarrow> result" where
  "parentProcess M frk rnd commands fp =
     (let quitTimestamp = quitScan commands (- 1) in
      if quitTimestamp = - 1
      then Exit_Failure ''Error: EXIT command not found in configuration file.''
      else (let numOfLinesInText = lineCount fp in
            case tickLoop M frk rnd commands fp numOfLinesInText quitTimestamp 0 (initial M) of
              Done s \<Rightarrow> drainLoop quitTimestamp [0..<M] s
            | r \<Rightarrow> r))"

subsection \<open>Notions the properties are stated with\<close>

text \<open>The state and the trace a result carries; a process that exited at the check for
  the \<^verbatim>\<open>E\<close> command has done nothing yet.\<close>

fun trace_of :: "result \<Rightarrow> event list" where
  "trace_of (Done s) = trace s"
| "trace_of (Blocked s) = trace s"
| "trace_of (Undefined f s) = trace s"
| "trace_of (Exit_Failure d) = []"

text \<open>\<^verbatim>\<open>holds P B r\<close>: the state of \<^verbatim>\<open>r\<close> satisfies \<^verbatim>\<open>P\<close> where the parent goes on (or stops
  on undefined behaviour), and \<^verbatim>\<open>B\<close> where it is blocked.\<close>

fun holds :: "(state \<Rightarrow> bool) \<Rightarrow> (state \<Rightarrow> bool) \<Rightarrow> result \<Rightarrow> bool" where
  "holds P B (Done s) = P s"
| "holds P B (Blocked s) = B s"
| "holds P B (Undefined f s) = P s"
| "holds P B (Exit_Failure d) = True"

fun is_Blocked :: "result \<Rightarrow> bool" where
  "is_Blocked (Blocked s) = True"
| "is_Blocked (Done s) = False"
| "is_Blocked (Undefined f s) = False"
| "is_Blocked (Exit_Failure d) = False"

text \<open>\<^verbatim>\<open>plain r\<close>: the parent went through or is blocked. \<^verbatim>\<open>regular r\<close>: in
  addition it may have stopped at the overflow of the tick counter, and at nothing else
  that is undefined.\<close>

fun plain :: "result \<Rightarrow> bool" where
  "plain (Done s) = True"
| "plain (Blocked s) = True"
| "plain (Undefined f s) = False"
| "plain (Exit_Failure d) = False"

fun regular :: "result \<Rightarrow> bool" where
  "regular (Done s) = True"
| "regular (Blocked s) = True"
| "regular (Undefined f s) = (f = SignedOverflow)"
| "regular (Exit_Failure d) = False"

text \<open>A trace has at most one message in flight when every \<^verbatim>\<open>sem_post\<close> to a child is
  followed at once by the parent's \<^verbatim>\<open>sem_wait\<close>: no store into the shared segment and no
  other post comes between the two.\<close>

definition is_post :: "event \<Rightarrow> bool" where
  "is_post e = (case e of SemPost i \<Rightarrow> True | _ \<Rightarrow> False)"

fun one_in_flight :: "event list \<Rightarrow> bool" where
  "one_in_flight [] = True"
| "one_in_flight [e] = (\<not> is_post e)"
| "one_in_flight (e # e' # es) =
     ((if is_post e then e' = SemWaitParent else True) \<and> one_in_flight (e' # es))"


text \<open>The lines the parent handed out (the \<^verbatim>\<open>Parent sent message\<close> lines of the console),
  and the lines a child logged as received.\<close>

fun sent_lines :: "event list \<Rightarrow> string list" where
  "sent_lines [] = []"
| "sent_lines (e # es) = (case e of SentMessage t i l \<Rightarrow> l # sent_lines es | _ \<Rightarrow> sent_lines es)"

fun received_lines :: "log_line list \<Rightarrow> string list" where
  "received_lines [] = []"
| "received_lines (e # es) =
     (case e of ReceivedMessage t p l \<Rightarrow> l # received_lines es | _ \<Rightarrow> received_lines es)"

definition logged_lines :: "state \<Rightarrow> string list" where
  "logged_lines s =
     concat (map (\<lambda>w. case w of None \<Rightarrow> [] | Some c \<Rightarrow> received_lines (writefile c)) (alive s)) @
     concat (map (\<lambda>c. received_lines (writefile c)) (exited s))"

text \<open>The number of slots whose process id is not zero, and the relation between it and
  the counter of the parent.\<close>

definition occupied :: "state \<Rightarrow> nat" where
  "occupied s = length (filter (\<lambda>p. p \<noteq> 0) (children s))"

definition count_inv :: "nat \<Rightarrow> state \<Rightarrow> bool" where
  "count_inv M s =
     (length (children s) = M \<and> activeChildren s = int (occupied s) \<and> activeChildren s \<le> int M)"

text \<open>The points of the tick loop. What the loop does is a sequence of three kinds of
  action: it enters the body for a tick, it applies a command, it hands out a line. A
  schedule is any such sequence; the states the parent goes through in a run are the
  states after the schedules that are prefixes of what it does (\<^verbatim>\<open>tick_schedule\<close> below is
  what one tick does).\<close>

datatype action = Enter int | Apply int ConfigEntry | Deliver int

fun perform ::
  "nat \<Rightarrow> (nat \<Rightarrow> pid_t) \<Rightarrow> (nat \<Rightarrow> nat) \<Rightarrow> string list \<Rightarrow> action \<Rightarrow> state \<Rightarrow> result" where
  "perform M frk rnd fp (Enter t) s = Done (s\<lparr>trace := trace s @ [Tick t]\<rparr>)"
| "perform M frk rnd fp (Apply t c) s = applyCommand M frk t c s"
| "perform M frk rnd fp (Deliver t) s = deliver M rnd fp (lineCount fp) t s"

fun run_schedule ::
  "nat \<Rightarrow> (nat \<Rightarrow> pid_t) \<Rightarrow> (nat \<Rightarrow> nat) \<Rightarrow> string list \<Rightarrow> action list \<Rightarrow> state \<Rightarrow> result" where
  "run_schedule M frk rnd fp [] s = Done s"
| "run_schedule M frk rnd fp (a # as) s =
     (case perform M frk rnd fp a s of
        Done s' \<Rightarrow> run_schedule M frk rnd fp as s'
      | r \<Rightarrow> r)"

definition tick_schedule :: "ConfigEntry list \<Rightarrow> int \<Rightarrow> action list" where
  "tick_schedule commands t =
     Enter t # map (Apply t) (filter (\<lambda>c. timestamp c = t) commands) @ [Deliver t]"

text \<open>The commands of one tick applied one after the other, in the order of the list given.\<close>

fun applyInOrder ::
  "nat \<Rightarrow> (nat \<Rightarrow> pid_t) \<Rightarrow> int \<Rightarrow> ConfigEntry list \<Rightarrow> state \<Rightarrow> result" where
  "applyInOrder M frk t [] s = Done s"
| "applyInOrder M frk t (c # cs) s =
     (case applyCommand M frk t c s of
        Done s' \<Rightarrow> applyInOrder M frk t cs s'
      | r \<Rightarrow> r)"

text \<open>What holds between two actions of the parent: no semaphore is raised, a process that
  waits on the semaphore of a slot is the one the slot records, and the counter agrees
  with the slots.\<close>

definition consistent :: "nat \<Rightarrow> state \<Rightarrow> bool" where
  "consistent M s =
     (count_inv M s \<and> length (alive s) = M \<and> length (semaphores s) = M \<and>
      length (activationTime s) = M \<and> length (terminationTime s) = M \<and>
      length (childLabels s) = M \<and> parentNotificationSemaphore s = 0 \<and>
      (\<forall>i<M. semaphores s ! i = 0 \<and> 0 \<le> children s ! i \<and>
         (\<forall>w. alive s ! i = Some w \<longrightarrow>
              0 < children s ! i \<and> child_pid w = children s ! i \<and>
              activation_time w = activationTime s ! i)))"

text \<open>The events of lines 215 to 220 (and 251 to 256), and of lines 239 to 244.\<close>

definition terminate_events :: "int \<Rightarrow> nat \<Rightarrow> event list" where
  "terminate_events t i =
     [Store_endsInTimestamp t, Store_sharedSpace ''TERMINATE'', SentTerminate t i,
      SemPost i, SemWaitParent]"

definition deliver_events :: "int \<Rightarrow> nat \<Rightarrow> string \<Rightarrow> event list" where
  "deliver_events t i l =
     [Store_sharedSpace l, Store_endsInTimestamp t, Store_activeChildIndx i,
      SentMessage t i l, SemPost i, SemWaitParent]"

subsection \<open>Example inputs\<close>

definition entry :: "int \<Rightarrow> string \<Rightarrow> char \<Rightarrow> ConfigEntry" where
  "entry t l k = \<lparr>timestamp = t, processLabel = l, command = k\<rparr>"

text \<open>The scenario of the specification: two slots, \<^verbatim>\<open>C1\<close> spawned at 0 and ended at 5,
  \<^verbatim>\<open>C2\<close> spawned at 2, the end at 8, a text of three lines.\<close>

definition scenario :: "ConfigEntry list" where
  "scenario =
     [entry 0 ''C1'' CHR ''S'', entry 2 ''C2'' CHR ''S'', entry 5 ''C1'' CHR ''T'',
      entry 8 ''EXIT'' CHR ''E'']"

definition pids :: "nat \<Rightarrow> pid_t" where
  "pids k = 100 + int k"

definition dice :: "nat \<Rightarrow> nat" where
  "dice k = k"

definition three_lines :: "string list" where
  "three_lines = [''alpha'', ''beta'', ''gamma'']"

text \<open>Commands without an \<^verbatim>\<open>E\<close> command; three commands that share tick 0; the state
  after one spawn with a single slot.\<close>

definition no_quit :: "ConfigEntry list" where
  "no_quit = [entry 0 ''C1'' CHR ''S'', entry 3 ''C1'' CHR ''T'']"

definition same_tick :: "ConfigEntry list" where
  "same_tick =
     [entry 0 ''C1'' CHR ''S'', entry 1 ''C3'' CHR ''S'', entry 0 ''C1'' CHR ''T'',
      entry 0 ''C2'' CHR ''S'', entry 1 ''EXIT'' CHR ''E'']"

definition one_child :: state where
  "one_child =
     (case applyCommand 1 pids 0 (entry 0 ''C1'' CHR ''S'') (initial 1) of
        Done s \<Rightarrow> s
      | _ \<Rightarrow> initial 1)"



text \<open>The state of the scenario after its first tick, and a command list that ends
  \<^verbatim>\<open>C1\<close> twice.\<close>

definition after_first_tick :: state where
  "after_first_tick =
     (case run_schedule 2 pids dice three_lines (tick_schedule scenario 0) (initial 2) of
        Done s \<Rightarrow> s
      | _ \<Rightarrow> initial 2)"

definition terminate_twice :: "ConfigEntry list" where
  "terminate_twice =
     [entry 0 ''C1'' CHR ''S'', entry 1 ''C1'' CHR ''T'', entry 2 ''C1'' CHR ''T'',
      entry 3 ''EXIT'' CHR ''E'']"

definition spawn_C2 :: ConfigEntry where
  "spawn_C2 = entry 2 ''C2'' CHR ''S''"

definition end_C1 :: ConfigEntry where
  "end_C1 = entry 5 ''C1'' CHR ''T''"

definition after_spawn_C2 :: state where
  "after_spawn_C2 =
     (case applyCommand 2 pids 2 spawn_C2 after_first_tick of Done s \<Rightarrow> s | _ \<Rightarrow> initial 2)"

definition after_end_C1 :: state where
  "after_end_C1 =
     (case applyCommand 2 pids 5 end_C1 after_first_tick of Done s \<Rightarrow> s | _ \<Rightarrow> initial 2)"

definition first_child :: child_proc where
  "first_child =
     \<lparr>child_pid = 100, M_requests = 0, activation_time = 0, lineCntr = 1,
      child_endsInTimestamp = - 1, writefile = [ReceivedMessage 0 100 ''beta'']\<rparr>"

section \<open>Properties\<close>

subsection \<open>The trace of the handshake\<close>

lemma trace_child_turn: "trace (child_turn i s) = trace s"
  by (simp add: child_turn_def Let_def split: option.splits prod.splits)

lemma post_and_wait_cases:
  "(\<exists>s'. post_and_wait i s = Done s') \<or> (\<exists>s'. post_and_wait i s = Blocked s')"
  by (simp add: post_and_wait_def sem_wait_parent_def)

lemma trace_of_post_and_wait:
  "trace_of (post_and_wait i s) = trace s @ [SemPost i, SemWaitParent]"
  by (simp add: post_and_wait_def sem_wait_parent_def trace_child_turn sem_post_child_def)

lemma terminate_child_cases:
  "(\<exists>s'. terminate_child t i s = Done s') \<or> (\<exists>s'. terminate_child t i s = Blocked s')"
proof -
  let ?s1 = "s\<lparr>terminationTime := (terminationTime s)[i := t],
                 sharedMem := (sharedMem s)\<lparr>endsInTimestamp := t, sharedSpace := ''TERMINATE''\<rparr>,
                 trace := trace s @
                   [Store_endsInTimestamp t, Store_sharedSpace ''TERMINATE'', SentTerminate t i]\<rparr>"
  from post_and_wait_cases [of i ?s1] show ?thesis
    by (auto simp add: terminate_child_def Let_def)
qed

lemma trace_of_terminate_child:
  "trace_of (terminate_child t i s) =
     trace s @ [Store_endsInTimestamp t, Store_sharedSpace ''TERMINATE'', SentTerminate t i,
                SemPost i, SemWaitParent] @
     (case terminate_child t i s of Done s' \<Rightarrow> [HasTerminated t i] | _ \<Rightarrow> [])"
proof -
  let ?s1 = "s\<lparr>terminationTime := (terminationTime s)[i := t],
                 sharedMem := (sharedMem s)\<lparr>endsInTimestamp := t, sharedSpace := ''TERMINATE''\<rparr>,
                 trace := trace s @
                   [Store_endsInTimestamp t, Store_sharedSpace ''TERMINATE'', SentTerminate t i]\<rparr>"
  from post_and_wait_cases [of i ?s1] trace_of_post_and_wait [of i ?s1] show ?thesis
    by (auto simp add: terminate_child_def Let_def)
qed

subsection \<open>From the actions to the loops\<close>

lemma commandLoop_holds:
  assumes "\<And>c s. P s \<Longrightarrow> holds P B (applyCommand M frk t c s)"
  shows "P s \<Longrightarrow> holds P B (commandLoop M frk t cs s)"
proof (induction cs arbitrary: s)
  case Nil
  then show ?case by simp
next
  case (Cons c cs)
  show ?case
  proof (cases "timestamp c = t")
    case True
    from assms [OF Cons.prems, of c] Cons.IH show ?thesis
      using True by (cases "applyCommand M frk t c s") simp_all
  next
    case False
    then show ?thesis using Cons by simp
  qed
qed

lemma drainLoop_holds:
  assumes "\<And>i s. i < M \<Longrightarrow> P s \<Longrightarrow> holds P B (terminate_child Q i s)"
    and "\<forall>i\<in>set slots. i < M"
  shows "P s \<Longrightarrow> holds P B (drainLoop Q slots s)"
  using assms(2)
proof (induction slots arbitrary: s)
  case Nil
  then show ?case by simp
next
  case (Cons i slots)
  then have i: "i < M" and rest: "\<forall>i\<in>set slots. i < M" by simp_all
  show ?case
  proof (cases "children s ! i > 0")
    case True
    from assms(1) [OF i Cons.prems(1)] Cons.IH [OF _ rest] show ?thesis
      using True by (cases "terminate_child Q i s") simp_all
  next
    case False
    then show ?thesis using Cons.IH [OF Cons.prems(1) rest] by simp
  qed
qed

lemma tick_holds:
  assumes "\<And>c s. P s \<Longrightarrow> holds P B (applyCommand M frk t c s)"
    and "\<And>s. P s \<Longrightarrow> holds P B (deliver M rnd fp n t s)"
    and "\<And>s. P s \<Longrightarrow> P (s\<lparr>trace := trace s @ [Tick t]\<rparr>)"
  shows "P s \<Longrightarrow> holds P B (tick M frk rnd cmds fp n t s)"
proof -
  assume "P s"
  then have "P (s\<lparr>trace := trace s @ [Tick t]\<rparr>)" by (rule assms(3))
  then have "holds P B (commandLoop M frk t cmds (s\<lparr>trace := trace s @ [Tick t]\<rparr>))"
    using assms(1) by (rule commandLoop_holds [rotated])
  then show ?thesis
    using assms(2)
    by (cases "commandLoop M frk t cmds (s\<lparr>trace := trace s @ [Tick t]\<rparr>)")
       (simp_all add: tick_def)
qed

lemma tickLoop_holds:
  assumes "\<And>t s. P s \<Longrightarrow> holds P B (tick M frk rnd cmds fp n t s)" and "P s"
  shows "holds P B (tickLoop M frk rnd cmds fp n Q t s)"
  using assms
proof (induction M frk rnd cmds fp n Q t s rule: tickLoop.induct)
  case (1 M frk rnd commands fp numOfLinesInText quitTimestamp currTime s)
  note step = "1.prems"(1) and Ps = "1.prems"(2)
  show ?case
  proof (cases "currTime \<le> quitTimestamp")
    case True
    have h: "holds P B (tick M frk rnd commands fp numOfLinesInText currTime s)"
      using Ps by (rule step)
    show ?thesis
    proof (cases "tick M frk rnd commands fp numOfLinesInText currTime s")
      case (Done s')
      with h have "P s'" by simp
      then show ?thesis
        using True Done "1.IH" [OF True Done _ step]
        by (subst tickLoop.simps) simp
    qed (use h True in \<open>simp_all add: tickLoop.simps [of _ _ _ _ _ _ _ currTime]\<close>)
  next
    case False
    then show ?thesis using Ps by (subst tickLoop.simps) simp
  qed
qed

lemma parentProcess_holds:
  assumes init: "P (initial M)"
    and cmd: "\<And>t c s. P s \<Longrightarrow> holds P B (applyCommand M frk t c s)"
    and dlv: "\<And>t s. P s \<Longrightarrow> holds P B (deliver M rnd fp (lineCount fp) t s)"
    and mark: "\<And>t s. P s \<Longrightarrow> P (s\<lparr>trace := trace s @ [Tick t]\<rparr>)"
    and trm: "\<And>t i s. i < M \<Longrightarrow> P s \<Longrightarrow> holds P B (terminate_child t i s)"
  shows "holds P B (parentProcess M frk rnd cmds fp)"
proof (cases "quitScan cmds (- 1) = - 1")
  case True
  then show ?thesis by (simp add: parentProcess_def)
next
  case False
  let ?Q = "quitScan cmds (- 1)"
  have t: "holds P B (tickLoop M frk rnd cmds fp (lineCount fp) ?Q 0 (initial M))"
    using tick_holds [of P B, OF cmd dlv mark] init by (rule tickLoop_holds [of P B])
  show ?thesis
  proof (cases "tickLoop M frk rnd cmds fp (lineCount fp) ?Q 0 (initial M)")
    case (Done s)
    with t have "P s" by simp
    then have "holds P B (drainLoop ?Q [0..<M] s)"
      using trm by (intro drainLoop_holds [of M P B]) simp_all
    then show ?thesis using False Done by (simp add: parentProcess_def)
  qed (use t False in \<open>simp_all add: parentProcess_def\<close>)
qed

lemma run_schedule_holds:
  assumes cmd: "\<And>t c s. P s \<Longrightarrow> holds P B (applyCommand M frk t c s)"
    and dlv: "\<And>t s. P s \<Longrightarrow> holds P B (deliver M rnd fp (lineCount fp) t s)"
    and mark: "\<And>t s. P s \<Longrightarrow> P (s\<lparr>trace := trace s @ [Tick t]\<rparr>)"
  shows "P s \<Longrightarrow> holds P B (run_schedule M frk rnd fp as s)"
proof (induction as arbitrary: s)
  case Nil
  then show ?case by simp
next
  case (Cons a as)
  have "holds P B (perform M frk rnd fp a s)"
    using Cons.prems cmd dlv mark by (cases a) simp_all
  then show ?case
    using Cons.IH by (cases "perform M frk rnd fp a s") simp_all
qed


subsection \<open>The events of one action\<close>

lemma fgets_loop_nth:
  "k < length fp \<Longrightarrow> fgets_loop (Suc k) fp buffer = Some (fp ! k)"
proof (induction fp arbitrary: k buffer)
  case Nil
  then show ?case by simp
next
  case (Cons l fp)
  then show ?case by (cases k) simp_all
qed

lemma randomLineSelection_nth:
  "fp \<noteq> [] \<Longrightarrow>
   randomLineSelection fp buffer (lineCount fp) r = Inr (Some (fp ! (r mod length fp)))"
  by (simp add: randomLineSelection_def lineCount_def fgets_loop_nth)

lemma randomActiveChildrenSelection_Some:
  assumes "randomActiveChildrenSelection chn M r = Some i"
  shows "i < M \<and> 0 < chn ! i"
proof -
  let ?A = "filter (\<lambda>i. chn ! i > 0) [0..<M]"
  from assms have ne: "length ?A \<noteq> 0" and i: "i = ?A ! (r mod length ?A)"
    by (auto simp add: randomActiveChildrenSelection_def Let_def split: if_splits)
  from ne have "r mod length ?A < length ?A" by simp
  then have "?A ! (r mod length ?A) \<in> set ?A" by (rule nth_mem)
  with i show ?thesis by simp
qed

lemma terminate_child_trace:
  "\<exists>es. trace_of (terminate_child t i s) = trace s @ es \<and>
        (es = terminate_events t i \<or> es = terminate_events t i @ [HasTerminated t i])"
  using terminate_child_cases [of t i s] trace_of_terminate_child [of t i s]
  by (auto simp add: terminate_events_def)

lemma applyCommand_not_exit: "applyCommand M frk t c s \<noteq> Exit_Failure d"
proof -
  have "terminate_child t i s \<noteq> Exit_Failure d" for i
    using terminate_child_cases [of t i s] by auto
  then show ?thesis
    by (auto simp add: applyCommand_def Let_def split: option.splits result.splits)
qed

lemma applyCommand_trace:
  "\<exists>es. trace_of (applyCommand M frk t c s) = trace s @ es \<and>
        (es = [] \<or> (\<exists>p. es = [Spawned t (processLabel c) p]) \<or>
         es = [Warning t (processLabel c)] \<or>
         (\<exists>i. es = terminate_events t i) \<or>
         (\<exists>i. es = terminate_events t i @ [HasTerminated t i]))"
proof -
  have T: "\<exists>es. trace_of (case terminate_child t i s of
                  Done s2 \<Rightarrow> Done (s2\<lparr>children := (children s2)[i := 0],
                                       activeChildren := activeChildren s2 - 1\<rparr>)
                | r \<Rightarrow> r) = trace s @ es \<and>
        (es = terminate_events t i \<or> es = terminate_events t i @ [HasTerminated t i])" for i
    using terminate_child_trace [of t i s]
    by (cases "terminate_child t i s") auto
  show ?thesis
    unfolding applyCommand_def Let_def
    using T by (auto split: option.splits) 
qed


lemma deliver_trace:
  "\<exists>es. trace_of (deliver M rnd fp (lineCount fp) t s) = trace s @ es \<and>
        (es = [] \<or> (\<exists>i l. i < M \<and> l \<in> set fp \<and> es = deliver_events t i l))"
proof (cases "activeChildren s > 0")
  case False
  then show ?thesis by (simp add: deliver_def)
next
  case True
  show ?thesis
  proof (cases "randomActiveChildrenSelection (children s) M (rnd (rand_calls s))")
    case None
    with True show ?thesis by (simp add: deliver_def)
  next
    case (Some i)
    then have i: "i < M" by (simp add: randomActiveChildrenSelection_Some)
    show ?thesis
    proof (cases "fp = []")
      case True
      with \<open>activeChildren s > 0\<close> Some show ?thesis
        by (simp add: deliver_def lineCount_def)
    next
      case False
      let ?l = "fp ! (rnd (Suc (rand_calls s)) mod length fp)"
      from False have l: "?l \<in> set fp" by simp
      from False have n: "lineCount fp > 0" by (simp add: lineCount_def)
      have "trace_of (deliver M rnd fp (lineCount fp) t s) = trace s @ deliver_events t i ?l"
        using True Some n randomLineSelection_nth [OF False]
        by (simp add: deliver_def Let_def trace_of_post_and_wait deliver_events_def)
      with i l show ?thesis by blast
    qed
  qed
qed

lemma deliver_cases:
  "(\<exists>s'. deliver M rnd fp (lineCount fp) t s = Done s') \<or>
   (\<exists>s'. deliver M rnd fp (lineCount fp) t s = Blocked s')"
proof (cases "fp = []")
  case True
  then show ?thesis
    by (simp add: deliver_def lineCount_def Let_def split: option.splits)
next
  case False
  then have n: "lineCount fp > 0" by (simp add: lineCount_def)
  show ?thesis
    using n randomLineSelection_nth [OF False] post_and_wait_cases
    by (simp add: deliver_def Let_def split: option.splits)
qed

lemma holds_trace:
  "\<forall>d. r \<noteq> Exit_Failure d \<Longrightarrow>
   holds (\<lambda>s. Q (trace s)) (\<lambda>s. Q (trace s)) r = Q (trace_of r)"
  by (cases r) simp_all

subsection \<open>One message in flight\<close>

lemma one_in_flight_append:
  "one_in_flight xs \<Longrightarrow> one_in_flight ys \<Longrightarrow> one_in_flight (xs @ ys)"
proof (induction xs rule: one_in_flight.induct)
  case 1
  then show ?case by simp
next
  case (2 e)
  then show ?case by (cases ys) (simp_all add: is_post_def)
next
  case (3 e e' es)
  then show ?case by simp
qed

lemma one_in_flight_terminate_child:
  assumes "one_in_flight (trace s)"
  shows "holds (\<lambda>s. one_in_flight (trace s)) (\<lambda>s. one_in_flight (trace s)) (terminate_child t i s)"
proof -
  obtain es where es: "trace_of (terminate_child t i s) = trace s @ es"
    and "es = terminate_events t i \<or> es = terminate_events t i @ [HasTerminated t i]"
    using terminate_child_trace by blast
  then have "one_in_flight es" by (auto simp add: terminate_events_def is_post_def)
  with assms have "one_in_flight (trace s @ es)" by (rule one_in_flight_append)
  moreover have "\<forall>d. terminate_child t i s \<noteq> Exit_Failure d"
    using terminate_child_cases [of t i s] by auto
  ultimately show ?thesis using es by (simp add: holds_trace)
qed

lemma one_in_flight_applyCommand:
  assumes "one_in_flight (trace s)"
  shows "holds (\<lambda>s. one_in_flight (trace s)) (\<lambda>s. one_in_flight (trace s))
           (applyCommand M frk t c s)"
proof -
  obtain es where es: "trace_of (applyCommand M frk t c s) = trace s @ es"
    and "es = [] \<or> (\<exists>p. es = [Spawned t (processLabel c) p]) \<or>
         es = [Warning t (processLabel c)] \<or>
         (\<exists>i. es = terminate_events t i) \<or>
         (\<exists>i. es = terminate_events t i @ [HasTerminated t i])"
    using applyCommand_trace by blast
  then have "one_in_flight es" by (auto simp add: terminate_events_def is_post_def)
  with assms have "one_in_flight (trace s @ es)" by (rule one_in_flight_append)
  then show ?thesis using es applyCommand_not_exit by (simp add: holds_trace)
qed

lemma one_in_flight_deliver:
  assumes "one_in_flight (trace s)"
  shows "holds (\<lambda>s. one_in_flight (trace s)) (\<lambda>s. one_in_flight (trace s))
           (deliver M rnd fp (lineCount fp) t s)"
proof -
  obtain es where es: "trace_of (deliver M rnd fp (lineCount fp) t s) = trace s @ es"
    and "es = [] \<or> (\<exists>i l. i < M \<and> l \<in> set fp \<and> es = deliver_events t i l)"
    using deliver_trace by blast
  then have "one_in_flight es" by (auto simp add: deliver_events_def is_post_def)
  with assms have "one_in_flight (trace s @ es)" by (rule one_in_flight_append)
  moreover have "\<forall>d. deliver M rnd fp (lineCount fp) t s \<noteq> Exit_Failure d"
    using deliver_cases [of M rnd fp t s] by auto
  ultimately show ?thesis using es by (simp add: holds_trace)
qed

text \<open>Example: the scenario run has eleven sends, each followed by the wait.\<close>

lemma scenario_posts:
  "length (filter is_post (trace_of (parentProcess 2 pids dice scenario three_lines))) = 11"
  by code_simp

text \<open>Claim C1. In every run of the parent, whatever the commands, the text, the results
  of \<^verbatim>\<open>fork\<close> and of \<^verbatim>\<open>rand\<close>: each \<^verbatim>\<open>sem_post\<close> to the semaphore of a child (in the
  delivery of a tick, in the handling of a \<^verbatim>\<open>T\<close> command and in the loop after the last tick)
  is followed at once by the wait on the parent's semaphore, so that no store into the
  shared segment and no second post comes between a send and its acknowledgment.\<close>

theorem one_message_in_flight:
  "one_in_flight (trace_of (parentProcess M frk rnd commands fp))"
proof -
  let ?P = "\<lambda>s. one_in_flight (trace s)"
  have "holds ?P ?P (parentProcess M frk rnd commands fp)"
  proof (rule parentProcess_holds)
    show "one_in_flight (trace (initial M))" by (simp add: initial_def)
  next
    fix t s assume "one_in_flight (trace s)"
    then have "one_in_flight (trace s @ [Tick t])"
      by (rule one_in_flight_append) (simp add: is_post_def)
    then show "one_in_flight (trace (s\<lparr>trace := trace s @ [Tick t]\<rparr>))" by simp
  qed (simp_all add: one_in_flight_applyCommand one_in_flight_deliver
         one_in_flight_terminate_child)
  then show ?thesis
    by (cases "parentProcess M frk rnd commands fp") simp_all
qed

theorem one_message_in_flight_witness:
  "one_in_flight (trace_of (parentProcess 2 pids dice scenario three_lines)) \<and>
   length (filter is_post (trace_of (parentProcess 2 pids dice scenario three_lines))) = 11"
  using one_message_in_flight [of 2 pids dice scenario three_lines] scenario_posts
  by simp

subsection \<open>The missing \<^verbatim>\<open>E\<close> command\<close>

lemma quitScan_none: "\<forall>c\<in>set cs. command c \<noteq> CHR ''E'' \<Longrightarrow> quitScan cs q = q"
  by (induction cs) simp_all

text \<open>Claim C8. When no command is an \<^verbatim>\<open>E\<close> command, the parent prints the diagnostic and
  exits with failure at line 174: before the text file is opened, before the shared segment
  and the semaphores are created, before any tick. The result carries no state and no
  event.\<close>

theorem missing_quit_is_fatal:
  assumes "\<forall>c\<in>set commands. command c \<noteq> CHR ''E''"
  shows "parentProcess M frk rnd commands fp =
           Exit_Failure ''Error: EXIT command not found in configuration file.''"
  using quitScan_none [OF assms, of "- 1"] by (simp add: parentProcess_def)

theorem missing_quit_is_fatal_witness:
  "parentProcess 2 pids dice no_quit three_lines =
     Exit_Failure ''Error: EXIT command not found in configuration file.'' \<and>
   trace_of (parentProcess 2 pids dice no_quit three_lines) = []"
  using missing_quit_is_fatal [of no_quit 2 pids dice three_lines]
  by (simp add: no_quit_def entry_def)

subsection \<open>A spawn with every slot taken\<close>

text \<open>Claim C4. When the counter of active children equals the capacity, an \<^verbatim>\<open>S\<close> command
  leaves the whole state as it is: the counter, the slots, the processes, the semaphores,
  the calls of \<^verbatim>\<open>fork\<close> and the trace (nothing is printed), and the parent goes on.\<close>

theorem spawn_at_capacity_is_no_op:
  assumes "activeChildren s = int M" and "command c = CHR ''S''"
  shows "applyCommand M frk t c s = Done s"
  using assms by (simp add: applyCommand_def)

lemma one_child_eq:
  "one_child =
     (initial 1)\<lparr>children := [100], childLabels := [''C1''], childSemArr := [0, - 1],
                 activationTime := [0], activeChildren := 1,
                 alive := [Some (child_start 100 0 0)], fork_calls := 1,
                 trace := [Spawned 0 ''C1'' 100]\<rparr>"
  by (simp add: one_child_def applyCommand_def Let_def entry_def initial_def freeSlotFinder_def pids_def)

theorem spawn_at_capacity_is_no_op_witness:
  "activeChildren one_child = 1 \<and> occupied one_child = 1 \<and>
   applyCommand 1 pids 0 (entry 0 ''C2'' CHR ''S'') one_child = Done one_child"
  using spawn_at_capacity_is_no_op [of one_child 1 "entry 0 ''C2'' CHR ''S''" pids 0]
  by (simp add: one_child_eq entry_def occupied_def initial_def)

subsection \<open>The order of the commands of one tick\<close>

text \<open>Claim C9. The inner loop applies the commands whose timestamp is the current tick,
  one after the other in the order of the command list: the loop is the same as applying,
  in order, the sublist of the commands of that tick. Nothing is sorted or grouped by
  kind.\<close>

theorem commands_in_authored_order:
  "commandLoop M frk t commands s =
     applyInOrder M frk t (filter (\<lambda>c. timestamp c = t) commands) s"
proof (induction commands arbitrary: s)
  case Nil
  then show ?case by simp
next
  case (Cons c cs)
  then show ?case
    by (cases "applyCommand M frk t c s") simp_all
qed

theorem commands_in_authored_order_witness:
  "commandLoop 2 pids 0 same_tick (initial 2) =
     applyInOrder 2 pids 0
       [entry 0 ''C1'' CHR ''S'', entry 0 ''C1'' CHR ''T'', entry 0 ''C2'' CHR ''S'']
       (initial 2)"
  using commands_in_authored_order [of 2 pids 0 same_tick "initial 2"]
  by (simp add: same_tick_def entry_def)

lemma tick_as_schedule:
  "tick M frk rnd commands fp (lineCount fp) t s =
     run_schedule M frk rnd fp (tick_schedule commands t) s"
proof -
  have "(case commandLoop M frk t cs s of
           Done s' \<Rightarrow> deliver M rnd fp (lineCount fp) t s' | r \<Rightarrow> r) =
        run_schedule M frk rnd fp
          (map (Apply t) (filter (\<lambda>c. timestamp c = t) cs) @ [Deliver t]) s" for cs s
  proof (induction cs arbitrary: s)
    case Nil
    show ?case
      by (cases "deliver M rnd fp (lineCount fp) t s") simp_all
  next
    case (Cons c cs)
    then show ?case
      by (cases "applyCommand M frk t c s") simp_all
  qed
  then show ?thesis by (simp add: tick_def tick_schedule_def)
qed

subsection \<open>How the loops end\<close>

lemma plain_iff: "plain r \<longleftrightarrow> (\<exists>s. r = Done s) \<or> (\<exists>s. r = Blocked s)"
  by (cases r) simp_all

lemma plain_terminate_child: "plain (terminate_child t i s)"
  using terminate_child_cases [of t i s] by (simp add: plain_iff)

lemma plain_deliver: "plain (deliver M rnd fp (lineCount fp) t s)"
  using deliver_cases [of M rnd fp t s] by (simp add: plain_iff)

lemma plain_applyCommand: "plain (applyCommand M frk t c s)"
proof -
  have "plain (case terminate_child t i s of
                  Done s2 \<Rightarrow> Done (s2\<lparr>children := (children s2)[i := 0],
                                       activeChildren := activeChildren s2 - 1\<rparr>)
                | r \<Rightarrow> r)" for i
    using plain_terminate_child [of t i s] by (cases "terminate_child t i s") simp_all
  then show ?thesis
    unfolding applyCommand_def Let_def by (simp split: option.splits)
qed

lemma plain_commandLoop: "plain (commandLoop M frk t cs s)"
proof (induction cs arbitrary: s)
  case Nil
  then show ?case by simp
next
  case (Cons c cs)
  from plain_applyCommand [of M frk t c s] Cons show ?case
    by (cases "applyCommand M frk t c s") simp_all
qed

lemma plain_tick: "plain (tick M frk rnd cmds fp (lineCount fp) t s)"
  using plain_commandLoop [of M frk t cmds "s\<lparr>trace := trace s @ [Tick t]\<rparr>"] plain_deliver
  by (cases "commandLoop M frk t cmds (s\<lparr>trace := trace s @ [Tick t]\<rparr>)")
     (simp_all add: tick_def)

lemma plain_drainLoop: "plain (drainLoop Q slots s)"
proof (induction slots arbitrary: s)
  case Nil
  then show ?case by simp
next
  case (Cons i slots)
  from plain_terminate_child [of Q i s] Cons show ?case
    by (cases "terminate_child Q i s") simp_all
qed

subsection \<open>The ticks of a run\<close>















subsection \<open>The handshake with and without a child on the semaphore\<close>

lemma post_and_wait_dead:
  assumes "parentNotificationSemaphore s = 0" and "alive s ! i = None"
  shows "post_and_wait i s =
           Blocked (s\<lparr>semaphores := (semaphores s)[i := semaphores s ! i + 1],
                      trace := trace s @ [SemPost i, SemWaitParent]\<rparr>)"
  using assms
  by (simp add: post_and_wait_def sem_wait_parent_def child_turn_def sem_post_child_def)

lemma post_and_wait_sentinel:
  assumes "parentNotificationSemaphore s = 0" and "semaphores s ! i = 0"
    and "i < length (semaphores s)" and "alive s ! i = Some c"
    and "sharedSpace (sharedMem s) = ''TERMINATE''"
  shows "post_and_wait i s =
           Done (s\<lparr>alive := (alive s)[i := None],
                   exited := exited s @
                     [child_finish
                        (c\<lparr>writefile := writefile c @
                              [ReceivedTerminate (endsInTimestamp (sharedMem s)) (child_pid c)],
                            child_endsInTimestamp := endsInTimestamp (sharedMem s)\<rparr>)],
                   trace := trace s @ [SemPost i, SemWaitParent]\<rparr>)"
  using assms
  by (simp add: post_and_wait_def sem_wait_parent_def child_turn_def sem_post_child_def
        child_iteration_def list_update_same_conv)

lemma post_and_wait_line:
  assumes "parentNotificationSemaphore s = 0" and "semaphores s ! i = 0"
    and "i < length (semaphores s)" and "alive s ! i = Some c"
    and "sharedSpace (sharedMem s) \<noteq> ''TERMINATE''"
  shows "post_and_wait i s =
           Done (s\<lparr>alive := (alive s)[i := Some
                     (c\<lparr>writefile := writefile c @
                           [ReceivedMessage (endsInTimestamp (sharedMem s)) (child_pid c)
                              (sharedSpace (sharedMem s))],
                         lineCntr := lineCntr c + 1\<rparr>)],
                   trace := trace s @ [SemPost i, SemWaitParent]\<rparr>)"
  using assms
  by (simp add: post_and_wait_def sem_wait_parent_def child_turn_def sem_post_child_def
        child_iteration_def list_update_same_conv)

subsection \<open>Slots found\<close>

lemma freeSlotFinder_Some:
  "freeSlotFinder chn M = Some i \<Longrightarrow> i < M \<and> chn ! i = 0"
  by (auto simp add: freeSlotFinder_def find_Some_iff)

lemma childLabelFinder_Some:
  "childLabelFinder lbls label M = Some i \<Longrightarrow> i < M \<and> lbls ! i = label"
  by (auto simp add: childLabelFinder_def find_Some_iff)

lemma filter_update_gain:
  "i < length xs \<Longrightarrow> \<not> P (xs ! i) \<Longrightarrow> P v \<Longrightarrow>
   length (filter P (xs[i := v])) = Suc (length (filter P xs))"
proof (induction xs arbitrary: i)
  case Nil
  then show ?case by simp
next
  case (Cons x xs)
  then show ?case by (cases i) simp_all
qed

lemma filter_update_loss:
  "i < length xs \<Longrightarrow> P (xs ! i) \<Longrightarrow> \<not> P v \<Longrightarrow>
   Suc (length (filter P (xs[i := v]))) = length (filter P xs)"
proof (induction xs arbitrary: i)
  case Nil
  then show ?case by simp
next
  case (Cons x xs)
  then show ?case by (cases i) simp_all
qed

subsection \<open>Ending a child\<close>

lemma terminate_child_alive:
  assumes "consistent M s" and "i < M" and "alive s ! i = Some w"
  shows "terminate_child t i s =
           Done (s\<lparr>terminationTime := (terminationTime s)[i := t],
                   sharedMem := (sharedMem s)\<lparr>endsInTimestamp := t, sharedSpace := ''TERMINATE''\<rparr>,
                   alive := (alive s)[i := None],
                   exited := exited s @
                     [child_finish
                        (w\<lparr>writefile := writefile w @ [ReceivedTerminate t (child_pid w)],
                            child_endsInTimestamp := t\<rparr>)],
                   trace := trace s @ terminate_events t i @ [HasTerminated t i]\<rparr>)"
proof -
  let ?s1 = "s\<lparr>terminationTime := (terminationTime s)[i := t],
                 sharedMem := (sharedMem s)\<lparr>endsInTimestamp := t, sharedSpace := ''TERMINATE''\<rparr>,
                 trace := trace s @
                   [Store_endsInTimestamp t, Store_sharedSpace ''TERMINATE'', SentTerminate t i]\<rparr>"
  from assms have "parentNotificationSemaphore ?s1 = 0" "semaphores ?s1 ! i = 0"
    "i < length (semaphores ?s1)" "alive ?s1 ! i = Some w"
    "sharedSpace (sharedMem ?s1) = ''TERMINATE''"
    by (simp_all add: consistent_def)
  from post_and_wait_sentinel [OF this] show ?thesis
    by (simp add: terminate_child_def Let_def terminate_events_def)
qed

lemma terminate_child_dead:
  assumes "consistent M s" and "alive s ! i = None"
  shows "terminate_child t i s =
           Blocked (s\<lparr>terminationTime := (terminationTime s)[i := t],
                      sharedMem := (sharedMem s)\<lparr>endsInTimestamp := t, sharedSpace := ''TERMINATE''\<rparr>,
                      semaphores := (semaphores s)[i := semaphores s ! i + 1],
                      trace := trace s @ terminate_events t i\<rparr>)"
proof -
  let ?s1 = "s\<lparr>terminationTime := (terminationTime s)[i := t],
                 sharedMem := (sharedMem s)\<lparr>endsInTimestamp := t, sharedSpace := ''TERMINATE''\<rparr>,
                 trace := trace s @
                   [Store_endsInTimestamp t, Store_sharedSpace ''TERMINATE'', SentTerminate t i]\<rparr>"
  from assms have "parentNotificationSemaphore ?s1 = 0" "alive ?s1 ! i = None"
    by (simp_all add: consistent_def)
  from post_and_wait_dead [OF this] show ?thesis
    by (simp add: terminate_child_def Let_def terminate_events_def)
qed

subsection \<open>The invariant of the parent\<close>

lemma consistent_initial: "consistent M (initial M)"
  by (simp add: consistent_def count_inv_def occupied_def initial_def)

lemma consistent_count: "consistent M s \<Longrightarrow> count_inv M s"
  by (simp add: consistent_def)

lemma consistent_mark: "consistent M s \<Longrightarrow> consistent M (s\<lparr>trace := e\<rparr>)"
  by (simp add: consistent_def count_inv_def occupied_def)

lemma consistent_terminate_child:
  assumes "consistent M s" and "i < M"
  shows "holds (consistent M) (count_inv M) (terminate_child t i s)"
proof (cases "alive s ! i")
  case None
  from assms(1) show ?thesis
    unfolding terminate_child_dead [OF assms(1) None]
    by (simp add: consistent_def count_inv_def occupied_def)
next
  case (Some w)
  from assms show ?thesis
    unfolding terminate_child_alive [OF assms Some]
    by (simp add: consistent_def count_inv_def occupied_def nth_list_update)
qed


lemma applyCommand_spawned:
  assumes "command c = CHR ''S''" and "activeChildren s < int M"
    and "freeSlotFinder (children s) M = Some i" and "0 < frk (fork_calls s)"
  shows "applyCommand M frk t c s =
           Done (s\<lparr>children := (children s)[i := frk (fork_calls s)],
                   childLabels := (childLabels s)[i := processLabel c],
                   childSemArr := (childSemArr s)[i := int i],
                   activationTime := (activationTime s)[i := t],
                   activeChildren := activeChildren s + 1,
                   alive := (alive s)[i := Some (child_start (frk (fork_calls s)) i t)],
                   fork_calls := fork_calls s + 1,
                   trace := trace s @ [Spawned t (processLabel c) (frk (fork_calls s))]\<rparr>)"
  using assms by (simp add: applyCommand_def Let_def)

lemma applyCommand_terminated:
  assumes "consistent M s" and "command c = CHR ''T''"
    and "childLabelFinder (childLabels s) (processLabel c) M = Some i"
    and "alive s ! i = Some w"
  shows "applyCommand M frk t c s =
           Done (s\<lparr>children := (children s)[i := 0],
                   terminationTime := (terminationTime s)[i := t],
                   sharedMem := (sharedMem s)\<lparr>endsInTimestamp := t, sharedSpace := ''TERMINATE''\<rparr>,
                   activeChildren := activeChildren s - 1,
                   alive := (alive s)[i := None],
                   exited := exited s @
                     [child_finish
                        (w\<lparr>writefile := writefile w @ [ReceivedTerminate t (child_pid w)],
                            child_endsInTimestamp := t\<rparr>)],
                   trace := trace s @ terminate_events t i @ [HasTerminated t i]\<rparr>)"
proof -
  from assms(3) have "i < M" by (simp add: childLabelFinder_Some)
  from terminate_child_alive [OF assms(1) this assms(4), of t] assms(2,3) show ?thesis
    by (simp add: applyCommand_def Let_def)
qed

lemma applyCommand_stale:
  assumes "consistent M s" and "command c = CHR ''T''"
    and "childLabelFinder (childLabels s) (processLabel c) M = Some i"
    and "alive s ! i = None"
  shows "applyCommand M frk t c s =
           Blocked (s\<lparr>terminationTime := (terminationTime s)[i := t],
                      sharedMem := (sharedMem s)\<lparr>endsInTimestamp := t, sharedSpace := ''TERMINATE''\<rparr>,
                      semaphores := (semaphores s)[i := semaphores s ! i + 1],
                      trace := trace s @ terminate_events t i\<rparr>)"
  using terminate_child_dead [OF assms(1) assms(4), of t] assms(2,3)
  by (simp add: applyCommand_def Let_def)

lemma consistent_spawned:
  assumes "consistent M s" and "activeChildren s < int M"
    and "freeSlotFinder (children s) M = Some i" and "0 < p"
  shows "consistent M
           (s\<lparr>children := (children s)[i := p],
              childLabels := (childLabels s)[i := l],
              childSemArr := (childSemArr s)[i := int i],
              activationTime := (activationTime s)[i := t],
              activeChildren := activeChildren s + 1,
              alive := (alive s)[i := Some (child_start p i t)],
              fork_calls := f,
              trace := e\<rparr>)"
proof -
  from assms(3) have i: "i < M" "children s ! i = 0" by (simp_all add: freeSlotFinder_Some)
  from assms(1) have len: "length (children s) = M" by (simp add: consistent_def count_inv_def)
  have "length (filter (\<lambda>p. p \<noteq> 0) ((children s)[i := p])) =
          Suc (length (filter (\<lambda>p. p \<noteq> 0) (children s)))"
    using i len assms(4) by (intro filter_update_gain) simp_all
  then show ?thesis
    using assms i
    by (auto simp add: consistent_def count_inv_def occupied_def nth_list_update child_start_def)
qed

lemma consistent_terminated:
  assumes "consistent M s" and "i < M" and "alive s ! i = Some w"
  shows "consistent M
           (s\<lparr>children := (children s)[i := 0],
              terminationTime := (terminationTime s)[i := t],
              sharedMem := m,
              activeChildren := activeChildren s - 1,
              alive := (alive s)[i := None],
              exited := x,
              trace := e\<rparr>)"
proof -
  from assms have nz: "children s ! i \<noteq> 0" by (auto simp add: consistent_def)
  from assms(1) have len: "length (children s) = M" by (simp add: consistent_def count_inv_def)
  have "Suc (length (filter (\<lambda>p. p \<noteq> 0) ((children s)[i := 0]))) =
          length (filter (\<lambda>p. p \<noteq> 0) (children s))"
    using assms(2) len nz by (intro filter_update_loss) simp_all
  then show ?thesis
    using assms
    by (auto simp add: consistent_def count_inv_def occupied_def nth_list_update)
qed

lemma consistent_applyCommand:
  assumes "consistent M s"
  shows "holds (consistent M) (count_inv M) (applyCommand M frk t c s)"
proof (cases "command c = CHR ''S'' \<and> activeChildren s < int M")
  case True
  show ?thesis
  proof (cases "freeSlotFinder (children s) M")
    case None
    with True assms show ?thesis by (simp add: applyCommand_def)
  next
    case (Some i)
    show ?thesis
    proof (cases "0 < frk (fork_calls s)")
      case pos: True
      from True Some pos assms show ?thesis
        by (simp add: applyCommand_spawned consistent_spawned)
    next
      case False
      have "consistent M (s\<lparr>fork_calls := fork_calls s + 1\<rparr>)"
        using assms by (simp add: consistent_def count_inv_def occupied_def)
      with True Some False show ?thesis by (simp add: applyCommand_def Let_def)
    qed
  qed
next
  case notS: False
  show ?thesis
  proof (cases "command c = CHR ''T''")
    case False
    with notS assms show ?thesis by (auto simp add: applyCommand_def)
  next
    case True
    show ?thesis
    proof (cases "childLabelFinder (childLabels s) (processLabel c) M")
      case None
      with True assms show ?thesis
        by (simp add: applyCommand_def consistent_mark)
    next
      case (Some i)
      then have i: "i < M" by (simp add: childLabelFinder_Some)
      show ?thesis
      proof (cases "alive s ! i")
        case None
        from assms show ?thesis
          unfolding applyCommand_stale [OF assms True Some None]
          by (simp add: consistent_def count_inv_def occupied_def)
      next
        case (Some w)
        from assms i Some show ?thesis
          unfolding applyCommand_terminated [OF assms True \<open>childLabelFinder _ _ _ = Some i\<close> Some]
          by (simp add: consistent_terminated)
      qed
    qed
  qed
qed


lemma deliver_unfold:
  assumes "0 < activeChildren s"
    and "randomActiveChildrenSelection (children s) M (rnd (rand_calls s)) = Some i"
    and "fp \<noteq> []"
  shows "deliver M rnd fp (lineCount fp) t s =
           post_and_wait i
             (s\<lparr>rand_calls := rand_calls s + 2,
                sharedMem := \<lparr>activeChildIndx = int i, endsInTimestamp = t,
                              sharedSpace = fp ! (rnd (rand_calls s + 1) mod length fp)\<rparr>,
                trace := trace s @
                  [Store_sharedSpace (fp ! (rnd (rand_calls s + 1) mod length fp)),
                   Store_endsInTimestamp t, Store_activeChildIndx i,
                   SentMessage t i (fp ! (rnd (rand_calls s + 1) mod length fp))]\<rparr>)"
proof -
  from assms(3) have "0 < lineCount fp" by (simp add: lineCount_def)
  with assms randomLineSelection_nth [OF assms(3)] show ?thesis
    by (simp add: deliver_def Let_def)
qed

lemma deliver_idle:
  assumes "\<not> 0 < activeChildren s \<or>
           randomActiveChildrenSelection (children s) M (rnd (rand_calls s)) = None"
  shows "deliver M rnd fp n t s = Done s"
  using assms by (auto simp add: deliver_def)

lemma deliver_no_lines:
  assumes "0 < activeChildren s"
    and "randomActiveChildrenSelection (children s) M (rnd (rand_calls s)) = Some i"
  shows "deliver M rnd [] (lineCount []) t s = Done (s\<lparr>rand_calls := rand_calls s + 1\<rparr>)"
  using assms by (simp add: deliver_def lineCount_def)

lemma consistent_deliver:
  assumes "consistent M s"
  shows "holds (consistent M) (count_inv M) (deliver M rnd fp (lineCount fp) t s)"
proof (cases "0 < activeChildren s")
  case False
  with assms show ?thesis by (simp add: deliver_idle)
next
  case True
  show ?thesis
  proof (cases "randomActiveChildrenSelection (children s) M (rnd (rand_calls s))")
    case None
    with assms show ?thesis by (simp add: deliver_idle)
  next
    case (Some i)
    then have i: "i < M" by (simp add: randomActiveChildrenSelection_Some)
    show ?thesis
    proof (cases "fp = []")
      case True
      have "consistent M (s\<lparr>rand_calls := rand_calls s + 1\<rparr>)"
        using assms by (simp add: consistent_def count_inv_def occupied_def)
      with True \<open>0 < activeChildren s\<close> Some show ?thesis
        by (simp add: deliver_no_lines)
    next
      case False
      let ?l = "fp ! (rnd (rand_calls s + 1) mod length fp)"
      let ?s2 = "s\<lparr>rand_calls := rand_calls s + 2,
                sharedMem := \<lparr>activeChildIndx = int i, endsInTimestamp = t,
                              sharedSpace = ?l\<rparr>,
                trace := trace s @
                  [Store_sharedSpace ?l,
                   Store_endsInTimestamp t, Store_activeChildIndx i,
                   SentMessage t i ?l]\<rparr>"
      have eq: "deliver M rnd fp (lineCount fp) t s = post_and_wait i ?s2"
        using True Some False by (rule deliver_unfold)
      from assms i have pre: "parentNotificationSemaphore ?s2 = 0" "semaphores ?s2 ! i = 0"
        "i < length (semaphores ?s2)"
        by (simp_all add: consistent_def)
      show ?thesis
      proof (cases "alive s ! i")
        case None
        then have "alive ?s2 ! i = None" by simp
        from post_and_wait_dead [OF pre(1) this] assms show ?thesis
          unfolding eq by (simp add: consistent_def count_inv_def occupied_def)
      next
        case (Some w)
        then have w: "alive ?s2 ! i = Some w" by simp
        show ?thesis
        proof (cases "?l = ''TERMINATE''")
          case True
          then have "sharedSpace (sharedMem ?s2) = ''TERMINATE''" by simp
          from post_and_wait_sentinel [OF pre w this] assms i show ?thesis
            unfolding eq
            by (auto simp add: consistent_def count_inv_def occupied_def nth_list_update)
        next
          case False
          then have "sharedSpace (sharedMem ?s2) \<noteq> ''TERMINATE''" by simp
          from post_and_wait_line [OF pre w this] assms i Some show ?thesis
            unfolding eq
            by (auto simp add: consistent_def count_inv_def occupied_def nth_list_update)
        qed
      qed
    qed
  qed
qed

lemma consistent_run_schedule:
  "holds (consistent M) (count_inv M) (run_schedule M frk rnd fp as (initial M))"
  using consistent_initial [of M]
  by (intro run_schedule_holds) (simp_all add: consistent_applyCommand consistent_deliver consistent_mark)

lemma consistent_parentProcess:
  "holds (consistent M) (count_inv M) (parentProcess M frk rnd commands fp)"
  by (intro parentProcess_holds)
     (simp_all add: consistent_applyCommand consistent_deliver consistent_mark
        consistent_terminate_child consistent_initial)

subsection \<open>The run as a schedule\<close>

lemma run_schedule_append:
  "run_schedule M frk rnd fp (as @ bs) s =
     (case run_schedule M frk rnd fp as s of
        Done s' \<Rightarrow> run_schedule M frk rnd fp bs s'
      | r \<Rightarrow> r)"
proof (induction as arbitrary: s)
  case Nil
  then show ?case by simp
next
  case (Cons a as)
  then show ?case by (cases "perform M frk rnd fp a s") simp_all
qed

text \<open>The tick loop is a schedule: below \<^verbatim>\<open>INT_MAX\<close> it does, for the ticks from the
  current one to the last in increasing order, what \<^verbatim>\<open>tick_schedule\<close> lists, and stops
  where the parent blocks.\<close>

theorem tickLoop_as_schedule:
  assumes "Q < INT_MAX"
  shows "tickLoop M frk rnd cmds fp (lineCount fp) Q t s =
           run_schedule M frk rnd fp (concat (map (tick_schedule cmds) [t..Q])) s"
  using assms
proof (induction M frk rnd cmds fp "lineCount fp" Q t s rule: tickLoop.induct)
  case (1 M frk rnd commands fp quitTimestamp currTime s)
  show ?case
  proof (cases "currTime \<le> quitTimestamp")
    case False
    then show ?thesis by (subst tickLoop.simps) simp
  next
    case True
    with "1.prems" have ne: "currTime \<noteq> INT_MAX" by simp
    from True have up: "[currTime..quitTimestamp] = currTime # [currTime + 1..quitTimestamp]"
      by (simp add: upto_rec1)
    show ?thesis
    proof (cases "tick M frk rnd commands fp (lineCount fp) currTime s")
      case (Done s')
      from "1.hyps" [OF True Done ne "1.prems"] Done True ne show ?thesis
        by (subst tickLoop.simps)
           (simp add: up run_schedule_append tick_as_schedule [symmetric])
    qed (use True in \<open>simp_all add: tickLoop.simps [of _ _ _ _ _ _ _ currTime] up
           run_schedule_append tick_as_schedule [symmetric]\<close>)
  qed
qed


lemma scenario_ticks_upto: "[0..8] = [0, 1, 2, 3, 4, 5, 6, 7, (8::int)]"
  by code_simp

theorem tickLoop_as_schedule_witness:
  "tickLoop 2 pids dice scenario three_lines (lineCount three_lines) 8 0 (initial 2) =
     run_schedule 2 pids dice three_lines
       (concat (map (tick_schedule scenario) [0, 1, 2, 3, 4, 5, 6, 7, 8])) (initial 2)"
proof -
  have "(8::int) < INT_MAX" by (simp add: INT_MAX_def)
  from tickLoop_as_schedule [OF this, of 2 pids dice scenario three_lines 0 "initial 2"]
  show ?thesis by (simp only: scenario_ticks_upto)
qed

lemma consistent_point:
  "run_schedule M frk rnd fp as (initial M) = Done s \<Longrightarrow> consistent M s"
  using consistent_run_schedule [of M frk rnd fp as] by simp

subsection \<open>The counter of active children\<close>

lemma spawn_gain:
  assumes "consistent M s" and "command c = CHR ''S''"
    and "applyCommand M frk t c s = Done s'" and "children s' \<noteq> children s"
  shows "occupied s' = occupied s + 1 \<and> activeChildren s' = activeChildren s + 1"
proof -
  have room: "activeChildren s < int M"
  proof (rule ccontr)
    assume "\<not> activeChildren s < int M"
    with assms(2) have "applyCommand M frk t c s = Done s" by (simp add: applyCommand_def)
    with assms(3,4) show False by simp
  qed
  obtain i where i: "freeSlotFinder (children s) M = Some i"
  proof (cases "freeSlotFinder (children s) M")
    case None
    with assms(2) room have "applyCommand M frk t c s = Done s" by (simp add: applyCommand_def)
    with assms(3,4) show ?thesis by simp
  qed blast
  have pos: "0 < frk (fork_calls s)"
  proof (rule ccontr)
    assume "\<not> 0 < frk (fork_calls s)"
    with assms(2) room i have "applyCommand M frk t c s = Done (s\<lparr>fork_calls := fork_calls s + 1\<rparr>)"
      by (simp add: applyCommand_def Let_def)
    with assms(3,4) show False by auto
  qed
  from i have "i < M" "children s ! i = 0" by (simp_all add: freeSlotFinder_Some)
  moreover from assms(1) have "length (children s) = M"
    by (simp add: consistent_def count_inv_def)
  ultimately have "length (filter (\<lambda>p. p \<noteq> 0) ((children s)[i := frk (fork_calls s)])) =
          Suc (length (filter (\<lambda>p. p \<noteq> 0) (children s)))"
    using pos by (intro filter_update_gain) simp_all
  with assms(3) show ?thesis
    unfolding applyCommand_spawned [of c s M i frk t, OF assms(2) room i pos]
    by (auto simp add: occupied_def)
qed

lemma terminate_loss:
  assumes "consistent M s" and "command c = CHR ''T''"
    and "applyCommand M frk t c s = Done s'"
    and "childLabelFinder (childLabels s) (processLabel c) M = Some i"
  shows "occupied s' + 1 = occupied s \<and> activeChildren s' = activeChildren s - 1 \<and>
         children s ! i \<noteq> 0 \<and> children s' = (children s)[i := 0]"
proof (cases "alive s ! i")
  case None
  from assms(3) show ?thesis
    unfolding applyCommand_stale [OF assms(1,2,4) None] by simp
next
  case (Some w)
  from assms(4) have i: "i < M" by (simp add: childLabelFinder_Some)
  with assms(1) Some have nz: "children s ! i \<noteq> 0" by (auto simp add: consistent_def)
  from assms(1) have "length (children s) = M" by (simp add: consistent_def count_inv_def)
  with i nz have "Suc (length (filter (\<lambda>p. p \<noteq> 0) ((children s)[i := 0]))) =
          length (filter (\<lambda>p. p \<noteq> 0) (children s))"
    by (intro filter_update_loss) simp_all
  with assms(3) nz show ?thesis
    unfolding applyCommand_terminated [OF assms(1,2,4) Some]
    by (auto simp add: occupied_def)
qed

text \<open>Claim C6. At every point of the tick loop, that is after every sequence of entries
  into the loop body, commands applied and lines handed out that the parent gets through or
  blocks in, and at the end of every run: the counter \<^verbatim>\<open>activeChildren\<close> equals the number of
  slots whose process id is not zero, and is at most \<^verbatim>\<open>M\<close>. An \<^verbatim>\<open>S\<close> command that changes the
  slots raises both by one; a \<^verbatim>\<open>T\<close> command whose label is found and that the parent gets
  through clears one slot that was taken and lowers both by one.\<close>

theorem active_count_matches_slots:
  "holds (count_inv M) (count_inv M) (run_schedule M frk rnd fp as (initial M)) \<and>
   holds (count_inv M) (count_inv M) (parentProcess M frk rnd commands fp) \<and>
   (\<forall>s s'. run_schedule M frk rnd fp as (initial M) = Done s \<longrightarrow>
            applyCommand M frk t c s = Done s' \<longrightarrow>
      (command c = CHR ''S'' \<longrightarrow> children s' \<noteq> children s \<longrightarrow>
         occupied s' = occupied s + 1 \<and> activeChildren s' = activeChildren s + 1) \<and>
      (\<forall>i. command c = CHR ''T'' \<longrightarrow>
           childLabelFinder (childLabels s) (processLabel c) M = Some i \<longrightarrow>
         children s ! i \<noteq> 0 \<and> children s' = (children s)[i := 0] \<and>
         occupied s' + 1 = occupied s \<and> activeChildren s' = activeChildren s - 1))"
proof (intro conjI allI impI)
  have "holds (consistent M) (count_inv M) (run_schedule M frk rnd fp as (initial M))"
    by (rule consistent_run_schedule)
  then show "holds (count_inv M) (count_inv M) (run_schedule M frk rnd fp as (initial M))"
    by (cases "run_schedule M frk rnd fp as (initial M)") (simp_all add: consistent_count)
next
  have "holds (consistent M) (count_inv M) (parentProcess M frk rnd commands fp)"
    by (rule consistent_parentProcess)
  then show "holds (count_inv M) (count_inv M) (parentProcess M frk rnd commands fp)"
    by (cases "parentProcess M frk rnd commands fp") (simp_all add: consistent_count)
next
  fix s s'
  assume "run_schedule M frk rnd fp as (initial M) = Done s"
    and "applyCommand M frk t c s = Done s'"
    and "command c = CHR ''S''" and "children s' \<noteq> children s"
  then show "occupied s' = occupied s + 1" and "activeChildren s' = activeChildren s + 1"
    using spawn_gain [of M s c frk t s'] by (simp_all add: consistent_point)
next
  fix s s' i
  assume "run_schedule M frk rnd fp as (initial M) = Done s"
    and "applyCommand M frk t c s = Done s'"
    and "command c = CHR ''T''"
    and "childLabelFinder (childLabels s) (processLabel c) M = Some i"
  then show "children s ! i \<noteq> 0" and "children s' = (children s)[i := 0]"
    and "occupied s' + 1 = occupied s" and "activeChildren s' = activeChildren s - 1"
    using terminate_loss [of M s c frk t s' i] by (simp_all add: consistent_point)
qed

lemma after_first_tick_eq:
  "run_schedule 2 pids dice three_lines (tick_schedule scenario 0) (initial 2) =
     Done after_first_tick"
  by (simp add: after_first_tick_def) code_simp


lemma after_spawn_C2_eq:
  "applyCommand 2 pids 2 spawn_C2 after_first_tick = Done after_spawn_C2 \<and>
   command spawn_C2 = CHR ''S'' \<and> children after_spawn_C2 \<noteq> children after_first_tick"
  by (simp add: after_spawn_C2_def) code_simp

lemma after_end_C1_eq:
  "applyCommand 2 pids 5 end_C1 after_first_tick = Done after_end_C1 \<and>
   command end_C1 = CHR ''T'' \<and>
   childLabelFinder (childLabels after_first_tick) (processLabel end_C1) 2 = Some 0 \<and>
   alive after_first_tick ! 0 = Some first_child"
  by (simp add: after_end_C1_def) code_simp

theorem active_count_matches_slots_witness:
  "count_inv 2 after_first_tick \<and>
   occupied after_spawn_C2 = occupied after_first_tick + 1 \<and>
   activeChildren after_spawn_C2 = activeChildren after_first_tick + 1 \<and>
   occupied after_end_C1 + 1 = occupied after_first_tick \<and>
   activeChildren after_end_C1 = activeChildren after_first_tick - 1"
proof -
  note spawn = active_count_matches_slots
          [of 2 pids dice three_lines "tick_schedule scenario 0" scenario 2 spawn_C2]
  note finish = active_count_matches_slots
          [of 2 pids dice three_lines "tick_schedule scenario 0" scenario 5 end_C1]
  from spawn have
    "holds (count_inv 2) (count_inv 2)
       (run_schedule 2 pids dice three_lines (tick_schedule scenario 0) (initial 2))"
    by (rule conjunct1)
  then have 1: "count_inv 2 after_first_tick"
    by (simp only: after_first_tick_eq holds.simps)
  from spawn after_first_tick_eq after_spawn_C2_eq
  have 2: "occupied after_spawn_C2 = occupied after_first_tick + 1 \<and>
           activeChildren after_spawn_C2 = activeChildren after_first_tick + 1"
    by blast
  from finish after_first_tick_eq after_end_C1_eq
  have 3: "occupied after_end_C1 + 1 = occupied after_first_tick \<and>
           activeChildren after_end_C1 = activeChildren after_first_tick - 1"
    by blast
  from 1 2 3 show ?thesis by blast
qed

subsection \<open>The end of a child on a command\<close>

text \<open>Claim C5. Take a point of the tick loop and a \<^verbatim>\<open>T\<close> command at a tick
  \<^verbatim>\<open>t >= 0\<close> whose label is found in slot \<^verbatim>\<open>i\<close>, with a child alive on that slot. Then the
  parent gets through; the child has exited with \<^verbatim>\<open>endsInTimestamp\<close> equal to the stamp
  in the shared segment, which is \<^verbatim>\<open>t\<close>; the last line of its log gives the active time
  as \<^verbatim>\<open>t\<close> minus its activation time, and this is \<^verbatim>\<open>terminationTime[i] - activationTime[i]\<close>
  of the parent; and slot \<^verbatim>\<open>i\<close> holds process id 0, with no process waiting on it.\<close>

theorem terminate_records_span:
  assumes "run_schedule M frk rnd fp as (initial M) = Done s"
    and "command c = CHR ''T''"
    and "childLabelFinder (childLabels s) (processLabel c) M = Some i"
    and "alive s ! i = Some w"
    and "0 \<le> t"
  shows "\<exists>s' w'. applyCommand M frk t c s = Done s' \<and>
           exited s' = exited s @ [w'] \<and>
           endsInTimestamp (sharedMem s') = t \<and>
           child_endsInTimestamp w' = t \<and>
           writefile w' = writefile w @
             [ReceivedTerminate t (child_pid w),
              Summary (child_pid w) (lineCntr w) t (activation_time w) (t - activation_time w)] \<and>
           t - activation_time w = terminationTime s' ! i - activationTime s' ! i \<and>
           children s' ! i = 0 \<and> alive s' ! i = None"
proof -
  from assms(1) have c: "consistent M s" by (rule consistent_point)
  from assms(3) have i: "i < M" by (simp add: childLabelFinder_Some)
  from c i assms(4) have act: "activation_time w = activationTime s ! i"
    by (auto simp add: consistent_def)
  from c have len: "length (children s) = M" "length (alive s) = M"
    "length (terminationTime s) = M"
    by (simp_all add: consistent_def count_inv_def)
  show ?thesis
    unfolding applyCommand_terminated [OF c assms(2,3,4)]
    using assms(5) i act len
    by (simp add: child_finish_def)
qed

theorem terminate_records_span_witness:
  "\<exists>w'. exited after_end_C1 = [w'] \<and>
         writefile w' =
           [ReceivedMessage 0 100 ''beta'', ReceivedTerminate 5 100, Summary 100 1 5 0 5] \<and>
         5 - 0 = terminationTime after_end_C1 ! 0 - activationTime after_end_C1 ! 0 \<and>
         children after_end_C1 ! 0 = 0"
proof -
  have e: "exited after_first_tick = []" by code_simp
  have t: "(0::int) \<le> 5" by simp
  from after_end_C1_eq have
    "command end_C1 = CHR ''T''"
    "childLabelFinder (childLabels after_first_tick) (processLabel end_C1) 2 = Some 0"
    "alive after_first_tick ! 0 = Some first_child"
    and run: "applyCommand 2 pids 5 end_C1 after_first_tick = Done after_end_C1"
    by blast+
  from terminate_records_span [OF after_first_tick_eq this(1,2,3) t]
  obtain s' w' where "applyCommand 2 pids 5 end_C1 after_first_tick = Done s'"
    and "exited s' = exited after_first_tick @ [w']"
    and "writefile w' = writefile first_child @
             [ReceivedTerminate 5 (child_pid first_child),
              Summary (child_pid first_child) (lineCntr first_child) 5
                (activation_time first_child) (5 - activation_time first_child)]"
    and "5 - activation_time first_child = terminationTime s' ! 0 - activationTime s' ! 0"
    and "children s' ! 0 = 0"
    by blast
  with run e show ?thesis
    by (intro exI [of _ w']) (simp add: first_child_def)
qed

subsection \<open>A second \<^verbatim>\<open>T\<close> command for a label\<close>

text \<open>A \<^verbatim>\<open>T\<close> command whose label is stored in no slot (it was never spawned, or its
  slot has since been given to another label) adds the warning to the console and changes
  nothing else.\<close>

theorem terminate_unknown_label:
  assumes "command c = CHR ''T''"
    and "childLabelFinder (childLabels s) (processLabel c) M = None"
  shows "applyCommand M frk t c s = Done (s\<lparr>trace := trace s @ [Warning t (processLabel c)]\<rparr>)"
  using assms by (simp add: applyCommand_def)

lemma no_C9: "childLabelFinder (childLabels after_first_tick) ''C9'' 2 = None"
  by code_simp

theorem terminate_unknown_label_witness:
  "applyCommand 2 pids 3 (entry 3 ''C9'' CHR ''T'') after_first_tick =
     Done (after_first_tick\<lparr>trace := trace after_first_tick @ [Warning 3 ''C9'']\<rparr>)"
  using terminate_unknown_label [of "entry 3 ''C9'' CHR ''T''" after_first_tick 2 pids 3] no_C9
  by (simp add: entry_def)

text \<open>Claim C3 does not hold of the code. A \<^verbatim>\<open>T\<close> command finds its slot by the label
  alone, and the label of a child that was ended stays in the slot. With one slot, \<^verbatim>\<open>C1\<close>
  spawned at tick 0 and ended at tick 1, a second \<^verbatim>\<open>T\<close> command for \<^verbatim>\<open>C1\<close> at tick 2 prints
  no warning: the parent stores the termination time and the sentinel, posts the semaphore
  of the slot, and waits for an answer no process will give. The run ends blocked in
  tick 2, with the semaphore of slot 0 raised; the \<^verbatim>\<open>E\<close> command at tick 3 is not reached.\<close>

theorem second_terminate_blocks:
  "parentProcess 1 pids dice terminate_twice three_lines =
     Blocked
      \<lparr>children = [0], childLabels = [''C1''], childSemArr = [0, - 1],
       activationTime = [0], terminationTime = [2],
       sharedMem = \<lparr>activeChildIndx = 0, endsInTimestamp = 2, sharedSpace = ''TERMINATE''\<rparr>,
       semaphores = [1], parentNotificationSemaphore = 0, activeChildren = 0,
       alive = [None],
       exited =
         [\<lparr>child_pid = 100, M_requests = 0, activation_time = 0, lineCntr = 1,
           child_endsInTimestamp = 1,
           writefile =
             [ReceivedMessage 0 100 ''beta'', ReceivedTerminate 1 100, Summary 100 1 1 0 1]\<rparr>],
       fork_calls = 1, rand_calls = 2,
       trace =
         [Tick 0, Spawned 0 ''C1'' 100, Store_sharedSpace ''beta'', Store_endsInTimestamp 0,
          Store_activeChildIndx 0, SentMessage 0 0 ''beta'', SemPost 0, SemWaitParent,
          Tick 1, Store_endsInTimestamp 1, Store_sharedSpace ''TERMINATE'', SentTerminate 1 0,
          SemPost 0, SemWaitParent, HasTerminated 1 0,
          Tick 2, Store_endsInTimestamp 2, Store_sharedSpace ''TERMINATE'', SentTerminate 2 0,
          SemPost 0, SemWaitParent]\<rparr>"
  by code_simp

subsection \<open>The lines handed out and the lines received\<close>

lemma sent_lines_append: "sent_lines (xs @ ys) = sent_lines xs @ sent_lines ys"
  by (induction xs) (simp_all split: event.splits)

lemma received_lines_append:
  "received_lines (xs @ ys) = received_lines xs @ received_lines ys"
  by (induction xs) (simp_all split: log_line.splits)

lemma received_lines_child_finish:
  "received_lines (writefile (child_finish c)) = received_lines (writefile c)"
  by (simp add: child_finish_def Let_def received_lines_append)

lemma logs_iff:
  "set (logged_lines s) \<subseteq> A \<longleftrightarrow>
     (\<forall>c. Some c \<in> set (alive s) \<longrightarrow> set (received_lines (writefile c)) \<subseteq> A) \<and>
     (\<forall>c\<in>set (exited s). set (received_lines (writefile c)) \<subseteq> A)"
proof -
  have "set (concat (map (\<lambda>w. case w of None \<Rightarrow> [] | Some c \<Rightarrow> received_lines (writefile c)) ws))
          \<subseteq> A \<longleftrightarrow>
        (\<forall>c. Some c \<in> set ws \<longrightarrow> set (received_lines (writefile c)) \<subseteq> A)" for ws
  proof (induction ws)
    case Nil
    then show ?case by simp
  next
    case (Cons w ws)
    then show ?case by (cases w) auto
  qed
  note alive_part = this
  have "set (concat (map (\<lambda>c. received_lines (writefile c)) cs)) \<subseteq> A \<longleftrightarrow>
        (\<forall>c\<in>set cs. set (received_lines (writefile c)) \<subseteq> A)" for cs :: "child_proc list"
    by auto
  note exited_part = this
  show ?thesis
    by (simp only: logged_lines_def set_append Un_subset_iff alive_part exited_part)
qed

lemma logs_step:
  assumes "set (logged_lines s) \<subseteq> A"
    and "alive s' = (alive s)[i := x]" and "exited s' = exited s @ xs"
    and "set (case x of None \<Rightarrow> [] | Some c \<Rightarrow> received_lines (writefile c)) \<subseteq> A"
    and "set (concat (map (\<lambda>c. received_lines (writefile c)) xs)) \<subseteq> A"
  shows "set (logged_lines s') \<subseteq> A"
proof -
  have sub: "set ((alive s)[i := x]) \<subseteq> insert x (set (alive s))"
    by (rule set_update_subset_insert)
  have "set (received_lines (writefile c)) \<subseteq> A" if "Some c \<in> set (alive s')" for c
  proof -
    from that sub assms(2) have "Some c = x \<or> Some c \<in> set (alive s)" by auto
    with assms(1,4) show ?thesis by (auto simp add: logs_iff)
  qed
  moreover have "\<forall>c\<in>set (exited s'). set (received_lines (writefile c)) \<subseteq> A"
    using assms(1,3,5) by (auto simp add: logs_iff)
  ultimately show ?thesis by (simp add: logs_iff)
qed

lemma logs_of_alive:
  assumes "set (logged_lines s) \<subseteq> A" and "alive s ! i = Some w" and "i < length (alive s)"
  shows "set (received_lines (writefile w)) \<subseteq> A"
proof -
  from assms(2,3) have "Some w \<in> set (alive s)" by (metis nth_mem)
  with assms(1) show ?thesis by (simp add: logs_iff)
qed


lemma logs_post_and_wait:
  assumes "parentNotificationSemaphore s = 0" and "semaphores s ! i = 0"
    and "i < length (semaphores s)" and "i < length (alive s)"
    and "set (logged_lines s) \<subseteq> A"
    and "sharedSpace (sharedMem s) = ''TERMINATE'' \<or> sharedSpace (sharedMem s) \<in> A"
  shows "holds (\<lambda>s'. set (logged_lines s') \<subseteq> A) (\<lambda>s'. set (logged_lines s') \<subseteq> A)
           (post_and_wait i s)"
proof (cases "alive s ! i")
  case None
  from assms(5) show ?thesis
    unfolding post_and_wait_dead [OF assms(1) None] by (simp add: logged_lines_def)
next
  case (Some w)
  from assms(5) Some assms(4) have w: "set (received_lines (writefile w)) \<subseteq> A"
    by (rule logs_of_alive)
  show ?thesis
  proof (cases "sharedSpace (sharedMem s) = ''TERMINATE''")
    case True
    show ?thesis
      unfolding post_and_wait_sentinel [OF assms(1,2,3) Some True] holds.simps
      using assms(5)
      by (rule logs_step [where i = i and x = None and xs = "[child_finish
                        (w\<lparr>writefile := writefile w @
                              [ReceivedTerminate (endsInTimestamp (sharedMem s)) (child_pid w)],
                            child_endsInTimestamp := endsInTimestamp (sharedMem s)\<rparr>)]"])
         (simp_all add: w received_lines_child_finish received_lines_append)
  next
    case False
    with assms(6) have "sharedSpace (sharedMem s) \<in> A" by simp
    with w show ?thesis
      unfolding post_and_wait_line [OF assms(1,2,3) Some False] holds.simps
      by (intro logs_step [OF assms(5), where i = i and xs = "[]" and x = "Some
                     (w\<lparr>writefile := writefile w @
                           [ReceivedMessage (endsInTimestamp (sharedMem s)) (child_pid w)
                              (sharedSpace (sharedMem s))],
                         lineCntr := lineCntr w + 1\<rparr>)"])
         (simp_all add: received_lines_append)
  qed
qed

lemma logs_terminate_child:
  assumes "consistent M s" and "i < M" and "set (logged_lines s) \<subseteq> A"
  shows "holds (\<lambda>s'. set (logged_lines s') \<subseteq> A) (\<lambda>s'. set (logged_lines s') \<subseteq> A)
           (terminate_child t i s)"
proof (cases "alive s ! i")
  case None
  from assms(3) show ?thesis
    unfolding terminate_child_dead [OF assms(1) None] by (simp add: logged_lines_def)
next
  case (Some w)
  from assms(1,2) have "i < length (alive s)" by (simp add: consistent_def)
  with assms(3) Some have w: "set (received_lines (writefile w)) \<subseteq> A"
    by (intro logs_of_alive)
  show ?thesis
    unfolding terminate_child_alive [OF assms(1,2) Some] holds.simps
    using assms(3)
    by (rule logs_step [where i = i and x = None and xs = "[child_finish
                        (w\<lparr>writefile := writefile w @ [ReceivedTerminate t (child_pid w)],
                            child_endsInTimestamp := t\<rparr>)]"])
       (simp_all add: w received_lines_child_finish received_lines_append)
qed

lemma logs_applyCommand:
  assumes "consistent M s" and "set (logged_lines s) \<subseteq> A"
  shows "holds (\<lambda>s'. set (logged_lines s') \<subseteq> A) (\<lambda>s'. set (logged_lines s') \<subseteq> A)
           (applyCommand M frk t c s)"
proof (cases "command c = CHR ''S'' \<and> activeChildren s < int M")
  case True
  show ?thesis
  proof (cases "freeSlotFinder (children s) M")
    case None
    with True assms show ?thesis by (simp add: applyCommand_def)
  next
    case (Some i)
    show ?thesis
    proof (cases "0 < frk (fork_calls s)")
      case pos: True
      from True have S: "command c = CHR ''S''" and room: "activeChildren s < int M"
        by simp_all
      show ?thesis
        unfolding applyCommand_spawned [of c s M i frk t, OF S room Some pos] holds.simps
        using assms(2)
        by (rule logs_step [where i = i and xs = "[]"
              and x = "Some (child_start (frk (fork_calls s)) i t)"])
           (simp_all add: child_start_def)
    next
      case False
      with True Some assms(2) show ?thesis
        by (simp add: applyCommand_def Let_def logged_lines_def)
    qed
  qed
next
  case notS: False
  show ?thesis
  proof (cases "command c = CHR ''T''")
    case False
    with notS assms show ?thesis by (auto simp add: applyCommand_def)
  next
    case True
    show ?thesis
    proof (cases "childLabelFinder (childLabels s) (processLabel c) M")
      case None
      with True assms(2) show ?thesis
        by (simp add: applyCommand_def logged_lines_def)
    next
      case (Some i)
      then have i: "i < M" by (simp add: childLabelFinder_Some)
      show ?thesis
      proof (cases "alive s ! i")
        case None
        from assms(2) show ?thesis
          unfolding applyCommand_stale [OF assms(1) True Some None]
          by (simp add: logged_lines_def)
      next
        case live: (Some w)
        from assms(1) i have "i < length (alive s)" by (simp add: consistent_def)
        with assms(2) live have w: "set (received_lines (writefile w)) \<subseteq> A"
          by (intro logs_of_alive)
        show ?thesis
          unfolding applyCommand_terminated [OF assms(1) True Some live] holds.simps
          using assms(2)
          by (rule logs_step [where i = i and x = None and xs = "[child_finish
                        (w\<lparr>writefile := writefile w @ [ReceivedTerminate t (child_pid w)],
                            child_endsInTimestamp := t\<rparr>)]"])
             (simp_all add: w received_lines_child_finish received_lines_append)
      qed
    qed
  qed
qed

lemma logs_deliver:
  assumes "consistent M s" and "set (logged_lines s) \<subseteq> set fp"
  shows "holds (\<lambda>s'. set (logged_lines s') \<subseteq> set fp) (\<lambda>s'. set (logged_lines s') \<subseteq> set fp)
           (deliver M rnd fp (lineCount fp) t s)"
proof (cases "0 < activeChildren s")
  case False
  with assms show ?thesis by (simp add: deliver_idle)
next
  case True
  show ?thesis
  proof (cases "randomActiveChildrenSelection (children s) M (rnd (rand_calls s))")
    case None
    with assms show ?thesis by (simp add: deliver_idle)
  next
    case (Some i)
    then have i: "i < M" by (simp add: randomActiveChildrenSelection_Some)
    show ?thesis
    proof (cases "fp = []")
      case True
      with \<open>0 < activeChildren s\<close> Some assms(2) show ?thesis
        by (simp add: deliver_no_lines logged_lines_def)
    next
      case False
      let ?l = "fp ! (rnd (rand_calls s + 1) mod length fp)"
      let ?s2 = "s\<lparr>rand_calls := rand_calls s + 2,
                sharedMem := \<lparr>activeChildIndx = int i, endsInTimestamp = t,
                              sharedSpace = ?l\<rparr>,
                trace := trace s @
                  [Store_sharedSpace ?l,
                   Store_endsInTimestamp t, Store_activeChildIndx i,
                   SentMessage t i ?l]\<rparr>"
      have eq: "deliver M rnd fp (lineCount fp) t s = post_and_wait i ?s2"
        using True Some False by (rule deliver_unfold)
      from False have "?l \<in> set fp" by simp
      then have l: "sharedSpace (sharedMem ?s2) = ''TERMINATE'' \<or>
                    sharedSpace (sharedMem ?s2) \<in> set fp"
        by simp
      from assms(1) i have pre: "parentNotificationSemaphore ?s2 = 0" "semaphores ?s2 ! i = 0"
        "i < length (semaphores ?s2)" "i < length (alive ?s2)"
        by (simp_all add: consistent_def)
      from assms(2) have "set (logged_lines ?s2) \<subseteq> set fp" by (simp add: logged_lines_def)
      from logs_post_and_wait [OF pre this l] show ?thesis unfolding eq .
    qed
  qed
qed

lemma sent_applyCommand:
  "sent_lines (trace_of (applyCommand M frk t c s)) = sent_lines (trace s)"
proof -
  obtain es where es: "trace_of (applyCommand M frk t c s) = trace s @ es"
    and "es = [] \<or> (\<exists>p. es = [Spawned t (processLabel c) p]) \<or>
         es = [Warning t (processLabel c)] \<or>
         (\<exists>i. es = terminate_events t i) \<or>
         (\<exists>i. es = terminate_events t i @ [HasTerminated t i])"
    using applyCommand_trace by blast
  then have "sent_lines es = []" by (auto simp add: terminate_events_def)
  with es show ?thesis by (simp add: sent_lines_append)
qed

lemma sent_terminate_child:
  "sent_lines (trace_of (terminate_child t i s)) = sent_lines (trace s)"
proof -
  obtain es where es: "trace_of (terminate_child t i s) = trace s @ es"
    and "es = terminate_events t i \<or> es = terminate_events t i @ [HasTerminated t i]"
    using terminate_child_trace by blast
  then have "sent_lines es = []" by (auto simp add: terminate_events_def)
  with es show ?thesis by (simp add: sent_lines_append)
qed

lemma sent_deliver:
  "\<exists>ls. sent_lines (trace_of (deliver M rnd fp (lineCount fp) t s)) = sent_lines (trace s) @ ls \<and>
        set ls \<subseteq> set fp"
proof -
  obtain es where es: "trace_of (deliver M rnd fp (lineCount fp) t s) = trace s @ es"
    and "es = [] \<or> (\<exists>i l. i < M \<and> l \<in> set fp \<and> es = deliver_events t i l)"
    using deliver_trace by blast
  then have "set (sent_lines es) \<subseteq> set fp" by (auto simp add: deliver_events_def)
  with es show ?thesis by (simp add: sent_lines_append)
qed

text \<open>The three facts that go through a run together.\<close>

lemma lines_parentProcess:
  "holds (\<lambda>s. consistent M s \<and> set (sent_lines (trace s)) \<subseteq> set fp \<and>
                set (logged_lines s) \<subseteq> set fp)
         (\<lambda>s. set (sent_lines (trace s)) \<subseteq> set fp \<and> set (logged_lines s) \<subseteq> set fp)
         (parentProcess M frk rnd commands fp)"
    (is "holds ?P ?B _")
proof (rule parentProcess_holds)
  show "?P (initial M)"
    using consistent_initial [of M] by (simp add: initial_def logged_lines_def)
next
  fix t s assume "?P s"
  then show "?P (s\<lparr>trace := trace s @ [Tick t]\<rparr>)"
    by (simp add: consistent_mark sent_lines_append logged_lines_def)
next
  fix t c s assume P: "?P s"
  then have "set (sent_lines (trace_of (applyCommand M frk t c s))) \<subseteq> set fp"
    by (simp add: sent_applyCommand)
  then have "holds (\<lambda>s. set (sent_lines (trace s)) \<subseteq> set fp)
                   (\<lambda>s. set (sent_lines (trace s)) \<subseteq> set fp) (applyCommand M frk t c s)"
    using plain_applyCommand [of M frk t c s] by (cases "applyCommand M frk t c s") simp_all
  with P consistent_applyCommand [of M s frk t c] logs_applyCommand [of M s "set fp" frk t c]
  show "holds ?P ?B (applyCommand M frk t c s)"
    by (cases "applyCommand M frk t c s") simp_all
next
  fix t s assume P: "?P s"
  obtain ls where "sent_lines (trace_of (deliver M rnd fp (lineCount fp) t s)) =
                     sent_lines (trace s) @ ls" and "set ls \<subseteq> set fp"
    using sent_deliver by blast
  with P have "set (sent_lines (trace_of (deliver M rnd fp (lineCount fp) t s))) \<subseteq> set fp"
    by simp
  then have "holds (\<lambda>s. set (sent_lines (trace s)) \<subseteq> set fp)
                   (\<lambda>s. set (sent_lines (trace s)) \<subseteq> set fp)
                   (deliver M rnd fp (lineCount fp) t s)"
    using plain_deliver [of M rnd fp t s]
    by (cases "deliver M rnd fp (lineCount fp) t s") simp_all
  with P consistent_deliver [of M s rnd fp t] logs_deliver [of M s fp rnd t]
  show "holds ?P ?B (deliver M rnd fp (lineCount fp) t s)"
    by (cases "deliver M rnd fp (lineCount fp) t s") simp_all
next
  fix t i s assume i: "i < M" and P: "?P s"
  then have "set (sent_lines (trace_of (terminate_child t i s))) \<subseteq> set fp"
    by (simp add: sent_terminate_child)
  then have "holds (\<lambda>s. set (sent_lines (trace s)) \<subseteq> set fp)
                   (\<lambda>s. set (sent_lines (trace s)) \<subseteq> set fp) (terminate_child t i s)"
    using plain_terminate_child [of t i s] by (cases "terminate_child t i s") simp_all
  with P i consistent_terminate_child [of M s i t] logs_terminate_child [of M s i "set fp" t]
  show "holds ?P ?B (terminate_child t i s)"
    by (cases "terminate_child t i s") simp_all
qed

lemma regular_tickLoop:
  "regular (tickLoop M frk rnd cmds fp (lineCount fp) Q t s)"
proof (induction M frk rnd cmds fp "lineCount fp" Q t s rule: tickLoop.induct)
  case (1 M frk rnd commands fp quitTimestamp currTime s)
  show ?case
  proof (cases "currTime \<le> quitTimestamp")
    case False
    then show ?thesis by (subst tickLoop.simps) simp
  next
    case True
    show ?thesis
    proof (cases "tick M frk rnd commands fp (lineCount fp) currTime s")
      case (Done s')
      with True "1.hyps" [OF True Done] show ?thesis
        by (subst tickLoop.simps) simp
    qed (use True plain_tick [of M frk rnd commands fp currTime s] in
          \<open>simp_all add: tickLoop.simps [of _ _ _ _ _ _ _ currTime]\<close>)
  qed
qed

lemma no_fault_parentProcess:
  "parentProcess M frk rnd commands fp = Undefined f s \<Longrightarrow> f = SignedOverflow"
proof -
  assume u: "parentProcess M frk rnd commands fp = Undefined f s"
  let ?Q = "quitScan commands (- 1)"
  let ?T = "tickLoop M frk rnd commands fp (lineCount fp) ?Q 0 (initial M)"
  from u have run: "(case ?T of Done s \<Rightarrow> drainLoop ?Q [0..<M] s | r \<Rightarrow> r) = Undefined f s"
    by (simp add: parentProcess_def Let_def split: if_splits)
  show ?thesis
  proof (cases ?T)
    case (Done s')
    with run plain_drainLoop [of ?Q "[0..<M]" s'] show ?thesis by simp
  next
    case (Undefined f' s')
    with run regular_tickLoop [of M frk rnd commands fp ?Q 0 "initial M"] show ?thesis by simp
  qed (use run in simp_all)
qed


text \<open>Claim C7. In every run, each line the parent hands out is a line of the text file,
  and so is each line a child, alive or exited, has logged as received. The line is found
  by \<^verbatim>\<open>randomLineSelection\<close>: with \<^verbatim>\<open>n\<close> lines in the file it takes the index
  \<^verbatim>\<open>rand() % n\<close>, which lies in \<^verbatim>\<open>[0, n)\<close>, and reads the file from its start up to
  the line of that index. (That the index is uniformly distributed is a matter of
  \<^verbatim>\<open>rand\<close> and is not part of the statement.)\<close>

theorem delivered_lines_from_text:
  "set (sent_lines (trace_of (parentProcess M frk rnd commands fp))) \<subseteq> set fp \<and>
   holds (\<lambda>s. set (logged_lines s) \<subseteq> set fp) (\<lambda>s. set (logged_lines s) \<subseteq> set fp)
     (parentProcess M frk rnd commands fp) \<and>
   (fp \<noteq> [] \<longrightarrow>
      r mod lineCount fp < lineCount fp \<and>
      randomLineSelection fp buffer (lineCount fp) r = Inr (Some (fp ! (r mod lineCount fp))) \<and>
      fp ! (r mod lineCount fp) \<in> set fp)"
proof (intro conjI impI)
  from lines_parentProcess [of M fp frk rnd commands]
  show "set (sent_lines (trace_of (parentProcess M frk rnd commands fp))) \<subseteq> set fp"
    by (cases "parentProcess M frk rnd commands fp") simp_all
  from lines_parentProcess [of M fp frk rnd commands]
  show "holds (\<lambda>s. set (logged_lines s) \<subseteq> set fp) (\<lambda>s. set (logged_lines s) \<subseteq> set fp)
          (parentProcess M frk rnd commands fp)"
    by (cases "parentProcess M frk rnd commands fp") simp_all
next
  assume "fp \<noteq> []"
  then show "r mod lineCount fp < lineCount fp"
    and "randomLineSelection fp buffer (lineCount fp) r = Inr (Some (fp ! (r mod lineCount fp)))"
    and "fp ! (r mod lineCount fp) \<in> set fp"
    by (simp_all add: randomLineSelection_nth) (simp_all add: lineCount_def)
qed

lemma scenario_lines:
  "sent_lines (trace_of (parentProcess 2 pids dice scenario three_lines)) =
     [''beta'', ''alpha'', ''gamma'', ''beta'', ''alpha'', ''gamma'', ''beta'', ''alpha'',
      ''gamma''] \<and>
   three_lines \<noteq> []"
  by code_simp

theorem delivered_lines_from_text_witness:
  "set [''beta'', ''alpha'', ''gamma'', ''beta'', ''alpha'', ''gamma'', ''beta'', ''alpha'',
        ''gamma''] \<subseteq> set three_lines \<and>
   randomLineSelection three_lines None (lineCount three_lines) 7 = Inr (Some ''beta'')"
proof -
  note th = delivered_lines_from_text [of 2 pids dice scenario three_lines 7 None]
  from th scenario_lines
  have "set [''beta'', ''alpha'', ''gamma'', ''beta'', ''alpha'', ''gamma'', ''beta'',
             ''alpha'', ''gamma''] \<subseteq> set three_lines"
    by (simp only:)
  moreover from th scenario_lines
  have "randomLineSelection three_lines None (lineCount three_lines) 7 =
          Inr (Some (three_lines ! (7 mod lineCount three_lines)))"
    by blast
  moreover have "three_lines ! (7 mod lineCount three_lines) = ''beta''"
    by code_simp
  ultimately show ?thesis by (simp only:)
qed

subsection \<open>A text file without lines\<close>

lemma scenario_no_lines:
  "\<not> is_Blocked (parentProcess 2 pids dice scenario []) \<and>
   trace_of (parentProcess 2 pids dice scenario []) =
     [Tick 0, Spawned 0 ''C1'' 100, Tick 1, Tick 2, Spawned 2 ''C2'' 101, Tick 3, Tick 4,
      Tick 5, Store_endsInTimestamp 5, Store_sharedSpace ''TERMINATE'', SentTerminate 5 0,
      SemPost 0, SemWaitParent, HasTerminated 5 0, Tick 6, Tick 7, Tick 8,
      Store_endsInTimestamp 8, Store_sharedSpace ''TERMINATE'', SentTerminate 8 1,
      SemPost 1, SemWaitParent, HasTerminated 8 1]"
  by code_simp

text \<open>Claim C10. With a text file of no lines, no run hands out a line and no child logs
  one, however many children are alive; no run ends in the division by zero of
  \<^verbatim>\<open>rand() % totalLines\<close>, because the delivery of a tick then does nothing but, with a
  child to choose, the one call of \<^verbatim>\<open>rand\<close> that chooses it. The commands of the tick and
  the loop after the last tick are as with any other text.\<close>

theorem no_delivery_without_lines:
  "sent_lines (trace_of (parentProcess M frk rnd commands [])) = [] \<and>
   holds (\<lambda>s. logged_lines s = []) (\<lambda>s. logged_lines s = [])
     (parentProcess M frk rnd commands []) \<and>
   (\<forall>s. parentProcess M frk rnd commands [] \<noteq> Undefined DivisionByZero s) \<and>
   deliver M rnd [] (lineCount []) t s =
     Done (if 0 < activeChildren s \<and>
              randomActiveChildrenSelection (children s) M (rnd (rand_calls s)) \<noteq> None
           then s\<lparr>rand_calls := rand_calls s + 1\<rparr> else s) \<and>
   tick M frk rnd commands [] (lineCount []) t s =
     (case commandLoop M frk t commands (s\<lparr>trace := trace s @ [Tick t]\<rparr>) of
        Done s' \<Rightarrow>
          Done (if 0 < activeChildren s' \<and>
                   randomActiveChildrenSelection (children s') M (rnd (rand_calls s')) \<noteq> None
                then s'\<lparr>rand_calls := rand_calls s' + 1\<rparr> else s')
      | r \<Rightarrow> r)"
proof (intro conjI allI)
  from lines_parentProcess [of M "[]" frk rnd commands]
  show "sent_lines (trace_of (parentProcess M frk rnd commands [])) = []"
    by (cases "parentProcess M frk rnd commands []") simp_all
  from lines_parentProcess [of M "[]" frk rnd commands]
  show "holds (\<lambda>s. logged_lines s = []) (\<lambda>s. logged_lines s = [])
          (parentProcess M frk rnd commands [])"
    by (cases "parentProcess M frk rnd commands []") simp_all
next
  fix s'
  show "parentProcess M frk rnd commands [] \<noteq> Undefined DivisionByZero s'"
    using no_fault_parentProcess [of M frk rnd commands "[]" DivisionByZero s'] by auto
next
  show d: "deliver M rnd [] (lineCount []) t s =
     Done (if 0 < activeChildren s \<and>
              randomActiveChildrenSelection (children s) M (rnd (rand_calls s)) \<noteq> None
           then s\<lparr>rand_calls := rand_calls s + 1\<rparr> else s)" for s
    by (auto simp add: deliver_def lineCount_def)
  show "tick M frk rnd commands [] (lineCount []) t s =
     (case commandLoop M frk t commands (s\<lparr>trace := trace s @ [Tick t]\<rparr>) of
        Done s' \<Rightarrow>
          Done (if 0 < activeChildren s' \<and>
                   randomActiveChildrenSelection (children s') M (rnd (rand_calls s')) \<noteq> None
                then s'\<lparr>rand_calls := rand_calls s' + 1\<rparr> else s')
      | r \<Rightarrow> r)"
    unfolding tick_def
    by (cases "commandLoop M frk t commands (s\<lparr>trace := trace s @ [Tick t]\<rparr>)")
       (simp_all only: result.case d)
qed

theorem no_delivery_without_lines_witness:
  "sent_lines
     [Tick 0, Spawned 0 ''C1'' 100, Tick 1, Tick 2, Spawned 2 ''C2'' 101, Tick 3, Tick 4,
      Tick 5, Store_endsInTimestamp 5, Store_sharedSpace ''TERMINATE'', SentTerminate 5 0,
      SemPost 0, SemWaitParent, HasTerminated 5 0, Tick 6, Tick 7, Tick 8,
      Store_endsInTimestamp 8, Store_sharedSpace ''TERMINATE'', SentTerminate 8 1,
      SemPost 1, SemWaitParent, HasTerminated 8 1] = [] \<and>
   \<not> is_Blocked (parentProcess 2 pids dice scenario [])"
proof -
  from no_delivery_without_lines [of 2 pids dice scenario]
  have "sent_lines (trace_of (parentProcess 2 pids dice scenario [])) = []"
    by (rule conjunct1)
  with scenario_no_lines show ?thesis by (simp only: simp_thms)
qed

end
